theory Spec2Isabelle
  imports Main
begin

section \<open>Python strings\<close>

text \<open>
  The parser of \<^verbatim>\<open>src/app.py\<close> works on the text that the PDF extractor returns.
  A Python \<^verbatim>\<open>str\<close> is modelled as a \<^typ>\<open>string\<close>, each character standing for the code point
  of its number, so that the texts of the model are the texts of code points below 256. The
  character classes below (\<^verbatim>\<open>str.isspace\<close>, \<^verbatim>\<open>\s\<close>, \<^verbatim>\<open>\d\<close>, \<^verbatim>\<open>\w\<close>, the line boundaries of
  \<^verbatim>\<open>splitlines\<close>) are the ones Python has on these code points.
\<close>

definition ord :: "char \<Rightarrow> nat" where
  "ord c = of_char c"

text \<open>\<^verbatim>\<open>[A-Z]\<close>, \<^verbatim>\<open>[a-z]\<close>, \<^verbatim>\<open>[A-Za-z]\<close> and \<^verbatim>\<open>[0-9]\<close>; the last is also \<^verbatim>\<open>\d\<close>, as the digits 0 to 9
  are the only decimal digits below 256.\<close>

definition is_upper :: "char \<Rightarrow> bool" where
  "is_upper c = (65 \<le> ord c \<and> ord c \<le> 90)"

definition is_lower :: "char \<Rightarrow> bool" where
  "is_lower c = (97 \<le> ord c \<and> ord c \<le> 122)"

definition is_alpha :: "char \<Rightarrow> bool" where
  "is_alpha c = (is_upper c \<or> is_lower c)"

definition is_digit :: "char \<Rightarrow> bool" where
  "is_digit c = (48 \<le> ord c \<and> ord c \<le> 57)"

text \<open>\<^verbatim>\<open>str.isspace\<close> and the class \<^verbatim>\<open>\s\<close> of \<^verbatim>\<open>re\<close>: tab, line feed, vertical tab, form feed,
  carriage return, the separators 28 to 31, the blank, the next-line control 133 and the
  no-break space 160.\<close>

definition is_space :: "char \<Rightarrow> bool" where
  "is_space c =
     ((9 \<le> ord c \<and> ord c \<le> 13) \<or> (28 \<le> ord c \<and> ord c \<le> 32) \<or> ord c = 133 \<or> ord c = 160)"

text \<open>
  The characters from 128 to 255 that are alphanumeric for Python (\<^verbatim>\<open>str.isalnum\<close>): the
  ordinal indicators 170 and 186, the superscript digits 178, 179 and 185, the micro sign
  181, the fractions 188 to 190, and the letters 192 to 255 but for the multiplication sign
  215 and the division sign 247.
\<close>

definition latin1_alnum :: "char \<Rightarrow> bool" where
  "latin1_alnum c =
     (ord c = 170 \<or> ord c = 178 \<or> ord c = 179 \<or> ord c = 181 \<or> ord c = 185 \<or> ord c = 186
      \<or> (188 \<le> ord c \<and> ord c \<le> 190) \<or> (192 \<le> ord c \<and> ord c \<le> 214)
      \<or> (216 \<le> ord c \<and> ord c \<le> 246) \<or> (248 \<le> ord c \<and> ord c \<le> 255))"

text \<open>The word characters of \<^verbatim>\<open>\w\<close> and \<^verbatim>\<open>\b\<close>: the alphanumeric characters and the
  underscore.\<close>

definition is_word :: "char \<Rightarrow> bool" where
  "is_word c = (is_alpha c \<or> is_digit c \<or> ord c = 95 \<or> latin1_alnum c)"

text \<open>The line boundaries of \<^verbatim>\<open>str.splitlines\<close>: line feed, vertical tab, form feed, carriage
  return, the separators 28 to 30 and the next-line control 133.\<close>

definition is_linebreak :: "char \<Rightarrow> bool" where
  "is_linebreak c =
     ((10 \<le> ord c \<and> ord c \<le> 13) \<or> (28 \<le> ord c \<and> ord c \<le> 30) \<or> ord c = 133)"

text \<open>
  \<^verbatim>\<open>str.upper\<close>, character by character: the letters \<^verbatim>\<open>a\<close> to \<^verbatim>\<open>z\<close> and the lower-case letters
  224 to 246 and 248 to 254 move down by 32, and the sharp s (223) becomes \<^verbatim>\<open>SS\<close>. The upper-case
  forms of the micro sign (181) and of the y with diaeresis (255) are the code points 924 and
  376, for which the model has no character: it leaves the two in place. They are no ASCII
  characters before or after, and the parser looks in an upper-cased text only for texts of
  upper-case ASCII letters, blanks, hyphens, apostrophes and the characters of its keywords.
\<close>

definition upper_chars :: "char \<Rightarrow> string" where
  "upper_chars c =
     (if is_lower c \<or> (224 \<le> ord c \<and> ord c \<le> 246) \<or> (248 \<le> ord c \<and> ord c \<le> 254)
      then [char_of (ord c - 32)]
      else if ord c = 223 then ''SS''
      else [c])"

definition upper :: "string \<Rightarrow> string" where
  "upper s = concat (map upper_chars s)"

text \<open>\<^verbatim>\<open>s.startswith(p)\<close>.\<close>

fun startswith :: "string \<Rightarrow> string \<Rightarrow> bool" where
  "startswith s [] = True"
| "startswith [] (p # ps) = False"
| "startswith (c # cs) (p # ps) = (if c = p then startswith cs ps else False)"

text \<open>\<^verbatim>\<open>s.find(sub)\<close>: the lowest index where \<^verbatim>\<open>sub\<close> starts in \<^verbatim>\<open>s\<close>, \<^verbatim>\<open>-1\<close> when there is
  none. \<open>find_index\<close> is the scan, \<open>None\<close> standing for "not found".\<close>

fun find_index :: "string \<Rightarrow> string \<Rightarrow> nat option" where
  "find_index [] sub = (if sub = [] then Some 0 else None)"
| "find_index (c # cs) sub =
     (if startswith (c # cs) sub then Some 0 else map_option Suc (find_index cs sub))"

definition str_find :: "string \<Rightarrow> string \<Rightarrow> int" where
  "str_find s sub = (case find_index s sub of None \<Rightarrow> -1 | Some i \<Rightarrow> int i)"

text \<open>\<^verbatim>\<open>sub in s\<close>.\<close>

definition str_in :: "string \<Rightarrow> string \<Rightarrow> bool" where
  "str_in sub s = (find_index s sub \<noteq> None)"

text \<open>\<^verbatim>\<open>s[a:b]\<close>: a negative bound counts from the end, and both bounds are clipped to the
  string.\<close>

definition clip :: "nat \<Rightarrow> int \<Rightarrow> nat" where
  "clip n i = (if i < 0 then nat (max 0 (int n + i)) else min n (nat i))"

definition slice :: "string \<Rightarrow> int \<Rightarrow> int \<Rightarrow> string" where
  "slice s a b = take (clip (length s) b - clip (length s) a) (drop (clip (length s) a) s)"

text \<open>\<^verbatim>\<open>s.strip(chars)\<close> removes the leading and trailing characters that belong to \<^verbatim>\<open>chars\<close>;
  \<^verbatim>\<open>s.strip()\<close> removes white space.\<close>

definition strip_by :: "(char \<Rightarrow> bool) \<Rightarrow> string \<Rightarrow> string" where
  "strip_by p s = rev (dropWhile p (rev (dropWhile p s)))"

definition strip :: "string \<Rightarrow> string" where
  "strip s = strip_by is_space s"

definition strip_chars :: "string \<Rightarrow> string \<Rightarrow> string" where
  "strip_chars s chars = strip_by (\<lambda>c. c \<in> set chars) s"

text \<open>\<^verbatim>\<open>s.split()\<close>: the maximal runs of characters that are not white space. \<open>cur\<close> is the
  run being read, in reverse.\<close>

fun split_loop :: "string \<Rightarrow> string \<Rightarrow> string list" where
  "split_loop cur [] = (if cur = [] then [] else [rev cur])"
| "split_loop cur (c # cs) =
     (if is_space c then (if cur = [] then split_loop [] cs else rev cur # split_loop [] cs)
      else split_loop (c # cur) cs)"

definition split :: "string \<Rightarrow> string list" where
  "split s = split_loop [] s"

text \<open>\<^verbatim>\<open>sep.join(parts)\<close>.\<close>

fun join :: "string \<Rightarrow> string list \<Rightarrow> string" where
  "join sep [] = []"
| "join sep [p] = p"
| "join sep (p # q # ps) = p @ sep @ join sep (q # ps)"

text \<open>\<^verbatim>\<open>s.splitlines()\<close>: the lines of \<^verbatim>\<open>s\<close> without their line boundaries; a carriage return
  followed by a line feed is one boundary, and a boundary at the very end opens no further
  line.\<close>

fun splitlines_loop :: "string \<Rightarrow> string \<Rightarrow> string list" where
  "splitlines_loop cur [] = (if cur = [] then [] else [rev cur])"
| "splitlines_loop cur (c # cs) =
     (if is_linebreak c then
        (case cs of
           d # ds \<Rightarrow>
             if ord c = 13 \<and> ord d = 10 then rev cur # splitlines_loop [] ds
             else rev cur # splitlines_loop [] cs
         | [] \<Rightarrow> [rev cur])
      else splitlines_loop (c # cur) cs)"

definition splitlines :: "string \<Rightarrow> string list" where
  "splitlines s = splitlines_loop [] s"

section \<open>The regular expressions of the parser\<close>

text \<open>
  Every pattern of \<^verbatim>\<open>src/app.py\<close> is a sequence of items, each a character class with a greedy
  repetition count (a single character is a class repeated once), or one of the assertions
  \<^verbatim>\<open>\b\<close>, \<^verbatim>\<open>^\<close> and \<^verbatim>\<open>$\<close>. No pattern has an alternative or a repeated group, and at most one
  group is captured, so a pattern is three item lists: the part before the group, the group,
  and the part after it.
\<close>

datatype item =
    Rep "char \<Rightarrow> bool" nat "nat option"
  | WordB
  | Bol
  | Eol

record regex =
  before :: "item list"
  group :: "item list"
  after :: "item list"

definition one :: "(char \<Rightarrow> bool) \<Rightarrow> item" where
  "one cls = Rep cls 1 (Some 1)"

definition opt :: "(char \<Rightarrow> bool) \<Rightarrow> item" where
  "opt cls = Rep cls 0 (Some 1)"

definition star :: "(char \<Rightarrow> bool) \<Rightarrow> item" where
  "star cls = Rep cls 0 None"

definition plus :: "(char \<Rightarrow> bool) \<Rightarrow> item" where
  "plus cls = Rep cls 1 None"

definition lit :: "string \<Rightarrow> item list" where
  "lit s = map (\<lambda>c. one (\<lambda>x. x = c)) s"

text \<open>
  Under \<^verbatim>\<open>re.IGNORECASE\<close> a character matches a class when its lower-case or its upper-case
  form does. The literals and classes of the three patterns compiled with the flag hold of
  ASCII characters only, and among the one-character case forms that \<^verbatim>\<open>re\<close> compares no
  character from 128 to 255 has one below 128, so the case forms that count are those of the
  ASCII letters.
\<close>

definition ascii_upper :: "char \<Rightarrow> char" where
  "ascii_upper c = (if is_lower c then char_of (ord c - 32) else c)"

definition ascii_lower :: "char \<Rightarrow> char" where
  "ascii_lower c = (if is_upper c then char_of (ord c + 32) else c)"

definition ignorecase :: "(char \<Rightarrow> bool) \<Rightarrow> char \<Rightarrow> bool" where
  "ignorecase cls c = (cls c \<or> cls (ascii_upper c) \<or> cls (ascii_lower c))"

definition lit_i :: "string \<Rightarrow> item list" where
  "lit_i s = map (\<lambda>c. one (ignorecase (\<lambda>x. x = c))) s"

text \<open>
  \<^verbatim>\<open>\b\<close> holds between two positions of which exactly one is a word character, the outside of
  the string counting as no word character. \<open>prev\<close> is the character before the position
  (\<open>None\<close> at the start of the string), \<open>s\<close> the rest of the string from the position on.
\<close>

definition word_before :: "char option \<Rightarrow> bool" where
  "word_before prev = (case prev of None \<Rightarrow> False | Some c \<Rightarrow> is_word c)"

definition word_at :: "string \<Rightarrow> bool" where
  "word_at s = (case s of [] \<Rightarrow> False | c # _ \<Rightarrow> is_word c)"

definition boundary :: "char option \<Rightarrow> string \<Rightarrow> bool" where
  "boundary prev s = (word_before prev \<noteq> word_at s)"

definition last_char :: "char option \<Rightarrow> string \<Rightarrow> char option" where
  "last_char prev seg = (if seg = [] then prev else Some (last seg))"

fun first_some :: "('a \<Rightarrow> 'b option) \<Rightarrow> 'a list \<Rightarrow> 'b option" where
  "first_some f [] = None"
| "first_some f (x # xs) = (case f x of Some y \<Rightarrow> Some y | None \<Rightarrow> first_some f xs)"

text \<open>
  The backtracking matcher of \<^verbatim>\<open>re\<close>, at one position: the items are matched from left to
  right; a repetition first takes as many characters of its class as there are (at most its
  upper count), and gives them back one at a time, down to its lower count, while the rest of
  the pattern fails. The result is the text each item has consumed.
\<close>

fun match_items :: "item list \<Rightarrow> char option \<Rightarrow> string \<Rightarrow> string list option" where
  "match_items [] prev s = Some []"
| "match_items (WordB # r) prev s =
     (if boundary prev s then map_option ((#) []) (match_items r prev s) else None)"
| "match_items (Bol # r) prev s =
     (if prev = None then map_option ((#) []) (match_items r prev s) else None)"
| "match_items (Eol # r) prev s =
     (if s = [] \<or> s = [CHR 0x0A] then map_option ((#) []) (match_items r prev s)
      else None)"
| "match_items (Rep cls lo hi # r) prev s =
     (let n = length (takeWhile cls s);
          m = (case hi of None \<Rightarrow> n | Some h \<Rightarrow> min h n)
      in first_some
           (\<lambda>k. map_option ((#) (take k s))
                  (match_items r (last_char prev (take k s)) (drop k s)))
           (rev [lo..<Suc m]))"

text \<open>A match object: where the match starts and ends in the searched string, and
  \<^verbatim>\<open>group(1)\<close>.\<close>

record match =
  m_start :: nat
  m_end :: nat
  group1 :: string

definition items :: "regex \<Rightarrow> item list" where
  "items r = before r @ group r @ after r"

definition match_here :: "regex \<Rightarrow> nat \<Rightarrow> char option \<Rightarrow> string \<Rightarrow> match option" where
  "match_here r pos prev s =
     map_option
       (\<lambda>segs. \<lparr>m_start = pos, m_end = pos + length (concat segs),
                 group1 = concat (take (length (group r)) (drop (length (before r)) segs))\<rparr>)
       (match_items (items r) prev s)"

text \<open>\<^verbatim>\<open>pattern.match(s)\<close> tries the start of the string only.\<close>

definition re_match :: "regex \<Rightarrow> string \<Rightarrow> match option" where
  "re_match r s = match_here r 0 None s"

text \<open>\<^verbatim>\<open>pattern.search(s)\<close> tries every position from the left, the end of the string
  included, and returns the first match.\<close>

fun search_from :: "regex \<Rightarrow> nat \<Rightarrow> char option \<Rightarrow> string \<Rightarrow> match option" where
  "search_from r pos prev [] = match_here r pos prev []"
| "search_from r pos prev (c # cs) =
     (case match_here r pos prev (c # cs) of
        Some m \<Rightarrow> Some m
      | None \<Rightarrow> search_from r (Suc pos) (Some c) cs)"

definition re_search :: "regex \<Rightarrow> string \<Rightarrow> match option" where
  "re_search r s = search_from r 0 None s"

text \<open>
  \<^verbatim>\<open>pattern.sub(repl, s)\<close> copies \<^verbatim>\<open>s\<close> from left to right and writes \<^verbatim>\<open>repl\<close> for every match,
  going on behind it. The two patterns the parser substitutes consume at least one character;
  where a match is empty the model copies the character and moves on.
\<close>

function sub_from :: "regex \<Rightarrow> string \<Rightarrow> char option \<Rightarrow> string \<Rightarrow> string" where
  "sub_from r repl prev [] = []"
| "sub_from r repl prev (c # cs) =
     (case match_here r 0 prev (c # cs) of
        Some m \<Rightarrow>
          if 0 < m_end m then
            repl @ sub_from r repl (last_char prev (take (m_end m) (c # cs)))
                     (drop (m_end m) (c # cs))
          else c # sub_from r repl (Some c) cs
      | None \<Rightarrow> c # sub_from r repl (Some c) cs)"
  by pat_completeness auto
termination
  by (relation "measure (\<lambda>(r, repl, prev, s). length s)") auto

definition re_sub :: "regex \<Rightarrow> string \<Rightarrow> string \<Rightarrow> string" where
  "re_sub r repl s = sub_from r repl None s"

text \<open>
  \<^verbatim>\<open>pattern.findall(s)\<close> for a pattern with one group: \<^verbatim>\<open>group(1)\<close> of every match, each
  search starting where the match before it ended, so that matches do not overlap. The one
  pattern the parser uses it with consumes at least two characters; the scan stops behind an
  empty match.
\<close>

function findall_from :: "regex \<Rightarrow> char option \<Rightarrow> string \<Rightarrow> string list" where
  "findall_from r prev s =
     (case search_from r 0 prev s of
        None \<Rightarrow> []
      | Some m \<Rightarrow>
          if 0 < m_end m \<and> m_end m \<le> length s then
            group1 m # findall_from r (last_char prev (take (m_end m) s)) (drop (m_end m) s)
          else [group1 m])"
  by pat_completeness auto
termination
  by (relation "measure (\<lambda>(r, prev, s). length s)") auto

definition re_findall :: "regex \<Rightarrow> string \<Rightarrow> string list" where
  "re_findall r s = findall_from r None s"

text \<open>The character classes and patterns of \<^verbatim>\<open>src/app.py\<close>.\<close>

definition hyphen :: "char \<Rightarrow> bool" where
  "hyphen c = (c = CHR ''-'')"

definition blank :: "char \<Rightarrow> bool" where
  "blank c = (c = CHR '' '')"

definition newline :: "char \<Rightarrow> bool" where
  "newline c = (c = CHR 0x0A)"

text \<open>\<^verbatim>\<open>[A-Z0-9\-]\<close>\<close>

definition case_chars :: "char \<Rightarrow> bool" where
  "case_chars c = (is_upper c \<or> is_digit c \<or> hyphen c)"

text \<open>\<^verbatim>\<open>[A-Z0-9 \-./&]\<close>\<close>

definition dept_chars :: "char \<Rightarrow> bool" where
  "dept_chars c =
     (is_upper c \<or> is_digit c \<or> blank c \<or> hyphen c \<or> c = CHR ''.'' \<or> c = CHR ''/'' \<or> c = CHR ''&'')"

text \<open>\<^verbatim>\<open>[0-9\- ]\<close>\<close>

definition id_chars :: "char \<Rightarrow> bool" where
  "id_chars c = (is_digit c \<or> hyphen c \<or> blank c)"

text \<open>\<^verbatim>\<open>[A-Z \-']\<close>\<close>

definition caps_chars :: "char \<Rightarrow> bool" where
  "caps_chars c = (is_upper c \<or> blank c \<or> hyphen c \<or> c = CHR 0x27)"

text \<open>\<^verbatim>\<open>[1-9]\<close>\<close>

definition digit19 :: "char \<Rightarrow> bool" where
  "digit19 c = (49 \<le> ord c \<and> ord c \<le> 57)"

text \<open>\<^verbatim>\<open>CASE_RE = re.compile(r"\b1\s*Case\s*Number\s*\n?([A-Z0-9\-]+)", re.IGNORECASE)\<close>\<close>

definition CASE_RE :: regex where
  "CASE_RE =
     \<lparr>before = [WordB] @ lit_i ''1'' @ [star is_space] @ lit_i ''Case'' @ [star is_space]
                @ lit_i ''Number'' @ [star is_space, opt newline],
      group = [plus (ignorecase case_chars)],
      after = []\<rparr>"

text \<open>\<^verbatim>\<open>DEPT_RE = re.compile(r"2\s*Police Dept of\s*\n?([A-Z0-9 \-./&]+)", re.IGNORECASE)\<close>\<close>

definition DEPT_RE :: regex where
  "DEPT_RE =
     \<lparr>before = lit_i ''2'' @ [star is_space] @ lit_i ''Police Dept of''
                @ [star is_space, opt newline],
      group = [plus (ignorecase dept_chars)],
      after = []\<rparr>"

text \<open>\<^verbatim>\<open>DATE_RE = re.compile(r"4\s*Date of Crash\s*\n?(\d{2}/\d{2}/\d{2})", re.IGNORECASE)\<close>\<close>

definition DATE_RE :: regex where
  "DATE_RE =
     \<lparr>before = lit_i ''4'' @ [star is_space] @ lit_i ''Date of Crash''
                @ [star is_space, opt newline],
      group = [Rep is_digit 2 (Some 2)] @ lit_i ''/'' @ [Rep is_digit 2 (Some 2)] @ lit_i ''/''
                @ [Rep is_digit 2 (Some 2)],
      after = []\<rparr>"

text \<open>\<^verbatim>\<open>r"^[0-9\- ]+$"\<close>\<close>

definition ID_LINE_RE :: regex where
  "ID_LINE_RE = \<lparr>before = [Bol, plus id_chars, Eol], group = [], after = []\<rparr>"

text \<open>\<^verbatim>\<open>r"[A-Za-z]{2,}\s+[A-Za-z]"\<close>\<close>

definition WORDS_RE :: regex where
  "WORDS_RE =
     \<lparr>before = [Rep is_alpha 2 None, plus is_space, one is_alpha], group = [], after = []\<rparr>"

text \<open>\<^verbatim>\<open>r"\s*-\s*"\<close>\<close>

definition HYPHEN_RE :: regex where
  "HYPHEN_RE = \<lparr>before = [star is_space, one hyphen, star is_space], group = [], after = []\<rparr>"

text \<open>\<^verbatim>\<open>r"\s{2,}"\<close>\<close>

definition SPACES_RE :: regex where
  "SPACES_RE = \<lparr>before = [Rep is_space 2 None], group = [], after = []\<rparr>"

text \<open>\<^verbatim>\<open>r"\b\d{2,}\b"\<close>\<close>

definition NUMBER_RE :: regex where
  "NUMBER_RE = \<lparr>before = [WordB, Rep is_digit 2 None, WordB], group = [], after = []\<rparr>"

text \<open>\<^verbatim>\<open>r"\n([A-Z][A-Z \-']{4,60})\n"\<close>\<close>

definition CAPS_RE :: regex where
  "CAPS_RE =
     \<lparr>before = [one newline],
      group = [one is_upper, Rep caps_chars 4 (Some 60)],
      after = [one newline]\<rparr>"

text \<open>\<^verbatim>\<open>r"\b8\s*Total\s*Killed\s*\n?([1-9])"\<close>\<close>

definition KILLED_RE :: regex where
  "KILLED_RE =
     \<lparr>before = [WordB] @ lit ''8'' @ [star is_space] @ lit ''Total'' @ [star is_space]
                @ lit ''Killed'' @ [star is_space, opt newline],
      group = [one digit19],
      after = []\<rparr>"

section \<open>The parser\<close>

text \<open>An occupant is the dictionary \<^verbatim>\<open>{"name": name_only}\<close>.\<close>

record occupant =
  name :: string

text \<open>
  The two lines of the loop body that cut the candidate at a number:
  \<^verbatim>\<open>m = re.search(r"\b\d{2,}\b", clean)\<close> and
  \<^verbatim>\<open>name_only = clean if not m else clean[:m.start()].strip()\<close>.
\<close>

definition name_only_of :: "string \<Rightarrow> string" where
  "name_only_of clean =
     (case re_search NUMBER_RE clean of
        None \<Rightarrow> clean
      | Some m \<Rightarrow> strip (slice clean 0 (int (m_start m))))"

text \<open>
  The body of the loop over the lines of the occupants block: \<open>results\<close> after the line
  \<open>l\<close> has been read.
\<close>

definition scan_line :: "occupant list \<Rightarrow> string \<Rightarrow> occupant list" where
  "scan_line results l =
     (if str_in ''Names & Addresses'' l \<or> str_in ''If Deceased'' l then results
      else if re_match ID_LINE_RE l \<noteq> None then results
      else if re_search WORDS_RE l \<noteq> None then
        (let clean = re_sub HYPHEN_RE '' '' l;
             clean = strip_chars (re_sub SPACES_RE '' '' clean) '' -'';
             name_only = name_only_of clean
         in if 2 \<le> length (split name_only) \<and> length (split name_only) \<le> 5
            then results @ [\<lparr>name = name_only\<rparr>]
            else results)
      else results)"

text \<open>The loop that removes repeated names: \<open>dedup\<close> and \<open>seen\<close> as the source has them.\<close>

fun dedup_loop :: "occupant list \<Rightarrow> occupant list \<Rightarrow> string set \<Rightarrow> occupant list" where
  "dedup_loop [] dedup seen = dedup"
| "dedup_loop (r # rs) dedup seen =
     (if name r \<notin> seen then dedup_loop rs (dedup @ [r]) (insert (name r) seen)
      else dedup_loop rs dedup seen)"

definition occupant_lines :: "string \<Rightarrow> string list" where
  "occupant_lines block = map strip (filter (\<lambda>l. strip l \<noteq> []) (splitlines block))"

definition parse_occupants :: "string \<Rightarrow> occupant list" where
  "parse_occupants text =
     (let anchor = str_find text ''Names & Addresses of Occupants''
      in if anchor = -1 then []
         else
           (let block = slice text anchor (anchor + 8000);
                lines = occupant_lines block;
                results = foldl scan_line [] lines
            in take 30 (dedup_loop results [] {})))"

text \<open>The list \<^verbatim>\<open>results\<close> of \<^verbatim>\<open>parse_occupants\<close> when its first loop has ended (empty when
  the anchor is absent and the function returns at once).\<close>

definition scan_results :: "string \<Rightarrow> occupant list" where
  "scan_results text =
     (let anchor = str_find text ''Names & Addresses of Occupants''
      in if anchor = -1 then []
         else foldl scan_line [] (occupant_lines (slice text anchor (anchor + 8000))))"

text \<open>The loop over the candidates of \<^verbatim>\<open>find_charged_driver_hint\<close>.\<close>

fun first_hint :: "string list \<Rightarrow> string option" where
  "first_hint [] = None"
| "first_hint (cand # caps) =
     (let cand = join '' '' (split cand)
      in if 2 \<le> length (split cand) \<and> length (split cand) \<le> 5 then Some cand
         else first_hint caps)"

definition find_charged_driver_hint :: "string \<Rightarrow> string option" where
  "find_charged_driver_hint text =
     (if \<not> str_in ''136 Charge'' text then None
      else
        (let idx = str_find text ''136 Charge'';
             snippet = slice text (max 0 (idx - 600)) (idx + 1500);
             caps = re_findall CAPS_RE snippet
         in first_hint caps))"

definition keys :: "string list" where
  "keys = [''USDOT'', ''TRUCK'', ''CARRIER'', ''GVWR'', ''PENSKE'', ''FREIGHT'', ''MC/MX'',
           ''WEIGHT >= 26,001'']"

definition flag_commercial :: "string \<Rightarrow> bool" where
  "flag_commercial text = (let T = upper text in list_ex (\<lambda>k. str_in k T) keys)"

text \<open>
  \<^verbatim>\<open>flag_fatal\<close> returns the value of \<^verbatim>\<open>"Total Killed" in text and re.search(...)\<close>: \<^verbatim>\<open>False\<close>
  when the substring is absent, and what the search returns otherwise (a match object or
  \<^verbatim>\<open>None\<close>). \<open>truth\<close> is \<^verbatim>\<open>bool(...)\<close> of such a value.
\<close>

datatype fatal_value = PyFalse | Searched "match option"

fun truth :: "fatal_value \<Rightarrow> bool" where
  "truth PyFalse = False"
| "truth (Searched None) = False"
| "truth (Searched (Some m)) = True"

definition flag_fatal :: "string \<Rightarrow> fatal_value" where
  "flag_fatal text =
     (if str_in ''Total Killed'' text then Searched (re_search KILLED_RE text) else PyFalse)"

text \<open>A row of the result, with the keys of the dictionary in the order of the source.\<close>

record row =
  Case_Number :: string
  Police_Dept :: string
  Date_of_Crash :: string
  Name :: string
  NotAtFault :: string
  CommercialVehicleFlag :: string
  FatalFlag :: string

text \<open>\<^verbatim>\<open>m.group(1) if m else ""\<close>\<close>

definition group1_or_empty :: "match option \<Rightarrow> string" where
  "group1_or_empty m = (case m of None \<Rightarrow> [] | Some mo \<Rightarrow> group1 mo)"

text \<open>\<^verbatim>\<open>"Yes" if b else "No"\<close>\<close>

definition yes_no :: "bool \<Rightarrow> string" where
  "yes_no b = (if b then ''Yes'' else ''No'')"

text \<open>\<^verbatim>\<open>x or ""\<close> for \<^verbatim>\<open>x\<close> a string or \<^verbatim>\<open>None\<close>.\<close>

definition or_empty :: "string option \<Rightarrow> string" where
  "or_empty x = (case x of None \<Rightarrow> [] | Some s \<Rightarrow> s)"

definition parse_document :: "string \<Rightarrow> row list" where
  "parse_document text =
     (let case_no = re_search CASE_RE text;
          dept = re_search DEPT_RE text;
          date = re_search DATE_RE text;
          occupants = parse_occupants text;
          charged_hint = upper (or_empty (find_charged_driver_hint text));
          commercial = flag_commercial text;
          fatal = truth (flag_fatal text);
          rows =
            map (\<lambda>occ.
                  \<lparr>Case_Number = group1_or_empty case_no,
                   Police_Dept = (case dept of None \<Rightarrow> [] | Some d \<Rightarrow> strip (group1 d)),
                   Date_of_Crash = group1_or_empty date,
                   Name = name occ,
                   NotAtFault =
                     (if charged_hint \<noteq> [] \<and> str_in charged_hint (upper (name occ)) then ''No''
                      else ''Yes''),
                   CommercialVehicleFlag = yes_no commercial,
                   FatalFlag = yes_no fatal\<rparr>)
              occupants
      in if rows = [] then
           [\<lparr>Case_Number = group1_or_empty case_no,
             Police_Dept = (case dept of None \<Rightarrow> [] | Some d \<Rightarrow> strip (group1 d)),
             Date_of_Crash = group1_or_empty date,
             Name = ''(no occupants parsed)'',
             NotAtFault = [],
             CommercialVehicleFlag = yes_no commercial,
             FatalFlag = yes_no fatal\<rparr>]
         else rows)"

section \<open>Notions used in the statements\<close>

text \<open>
  The order of first appearance: the first element, then the first appearances in the rest
  of the list, the later copies of the first element being dropped.
\<close>

function first_seen :: "'a list \<Rightarrow> 'a list" where
  "first_seen [] = []"
| "first_seen (x # xs) = x # first_seen (filter (\<lambda>y. y \<noteq> x) xs)"
  by pat_completeness auto
termination
  by (relation "measure length") (auto simp: less_Suc_eq_le)

text \<open>
  What it means that a pattern matches at a position, said without the search: \<open>segs\<close> gives
  for every item the text it stands for, \<open>prev\<close> is the character before the position and
  \<open>rest\<close> the text behind the match. A repetition stands for characters of its class, as many
  as its counts allow; an assertion stands for the empty text and holds at its position.
\<close>

fun fits :: "item list \<Rightarrow> char option \<Rightarrow> string list \<Rightarrow> string \<Rightarrow> bool" where
  "fits [] prev segs rest = (segs = [])"
| "fits (it # r) prev [] rest = False"
| "fits (WordB # r) prev (seg # segs) rest =
     (seg = [] \<and> boundary prev (concat segs @ rest) \<and> fits r prev segs rest)"
| "fits (Bol # r) prev (seg # segs) rest = (seg = [] \<and> prev = None \<and> fits r prev segs rest)"
| "fits (Eol # r) prev (seg # segs) rest =
     (seg = [] \<and> (concat segs @ rest = [] \<or> concat segs @ rest = [CHR 0x0A])
      \<and> fits r prev segs rest)"
| "fits (Rep cls lo hi # r) prev (seg # segs) rest =
     (list_all cls seg \<and> lo \<le> length seg
      \<and> (case hi of None \<Rightarrow> True | Some h \<Rightarrow> length seg \<le> h)
      \<and> fits r (last_char prev seg) segs rest)"

text \<open>
  A small report: the occupants block with a name that comes twice and a name followed by an
  address, and the charge anchor behind it.
\<close>

definition sample :: string where
  "sample = ''Names & Addresses of Occupants'' @ [CHR 0x0A] @ ''JOHN SMITH'' @ [CHR 0x0A]
     @ ''JANE DOE 45 ELM ST'' @ [CHR 0x0A] @ ''JOHN SMITH'' @ [CHR 0x0A] @ ''136 Charge''"

text \<open>
  The scenario of the specification: a case number on the line after its label, the police
  department and the date of the crash behind their labels, an occupants block with one line
  of a name and an address, and no charge anchor.
\<close>

definition scenario :: string where
  "scenario = ''1 Case Number'' @ [CHR 0x0A] @ ''ABC123'' @ [CHR 0x0A]
     @ ''2 Police Dept of TEST CITY PD'' @ [CHR 0x0A]
     @ ''4 Date of Crash 01/02/23'' @ [CHR 0x0A]
     @ ''Names & Addresses of Occupants'' @ [CHR 0x0A]
     @ ''JOHN SMITH 123 MAIN ST'' @ [CHR 0x0A]"

text \<open>
  The pattern of the fatal flag, said without the search: somewhere in the text, not directly
  behind a word character, stands \<^verbatim>\<open>8\<close>, \<^verbatim>\<open>Total\<close> and \<^verbatim>\<open>Killed\<close>, with any white space (or none)
  between them, and behind them, after any white space (or none), a digit from 1 to 9.
\<close>

definition killed_pattern :: "string \<Rightarrow> bool" where
  "killed_pattern text =
     (\<exists>pre ws1 ws2 ws3 d post.
        text = pre @ ''8'' @ ws1 @ ''Total'' @ ws2 @ ''Killed'' @ ws3 @ [d] @ post
        \<and> (pre = [] \<or> \<not> is_word (last pre))
        \<and> list_all is_space ws1 \<and> list_all is_space ws2 \<and> list_all is_space ws3
        \<and> digit19 d)"

text \<open>
  A number token: a run \<open>ds\<close> of two or more digits with no word character directly before
  it (\<open>pre\<close> is the text before it) and none directly behind it (\<open>post\<close> is the text behind
  it).
\<close>

definition token_at :: "string \<Rightarrow> string \<Rightarrow> string \<Rightarrow> bool" where
  "token_at pre ds post =
     (2 \<le> length ds \<and> list_all is_digit ds \<and> (pre = [] \<or> \<not> is_word (last pre))
      \<and> (post = [] \<or> \<not> is_word (hd post)))"

definition number_token :: "string \<Rightarrow> bool" where
  "number_token s = (\<exists>pre ds post. s = pre @ ds @ post \<and> token_at pre ds post)"

text \<open>
  A line that the pattern of the charged-driver hint takes: an uppercase letter followed by 4
  to 60 further characters, each an uppercase letter, a blank, a hyphen or an apostrophe.
  \<open>caps_line_at w pre L post\<close>: such a line \<open>L\<close> stands in \<open>w\<close> with a newline directly before and
  behind it, \<open>pre\<close> being the text before the first of the two newlines.
\<close>

definition caps_line :: "string \<Rightarrow> bool" where
  "caps_line L =
     (\<exists>c cs. L = c # cs \<and> is_upper c \<and> list_all caps_chars cs \<and> 4 \<le> length cs
        \<and> length cs \<le> 60)"

definition caps_line_at :: "string \<Rightarrow> string \<Rightarrow> string \<Rightarrow> string \<Rightarrow> bool" where
  "caps_line_at w pre L post = (w = pre @ [CHR 0x0A] @ L @ [CHR 0x0A] @ post \<and> caps_line L)"





text \<open>
  A report in mixed case with characters beyond ASCII: the first occupant is written with a
  sharp s (code point 223), the second name stands behind a no-break space (160) in place of
  a blank, the third line has a house number behind an ordinal indicator (186), the fourth
  has two blanks in a row, a hyphen between blanks and an address, and the charged driver
  stands in upper case before the charge anchor.
\<close>

definition sample_mixed :: string where
  "sample_mixed = ''Names & Addresses of Occupants'' @ [CHR 0x0A]
     @ ''John Strau'' @ [CHR 0xDF] @ [CHR 0x0A]
     @ ''Jane'' @ [CHR 0xA0] @ ''Doe'' @ [CHR 0x0A]
     @ ''Al Roe N'' @ [CHR 0xBA] @ ''12 Main'' @ [CHR 0x0A]
     @ ''Mary  Ann - Lee 77 Oak St'' @ [CHR 0x0A]
     @ ''JOHN STRAUSS'' @ [CHR 0x0A] @ ''136 Charge''"

section \<open>Evaluating the model\<close>

text \<open>Facts that let the simplifier run the definitions on a given text.\<close>

lemma char_of_eval:
  "char_of (n::nat) = Char (odd n) (odd (n div 2)) (odd (n div 4)) (odd (n div 8))
     (odd (n div 16)) (odd (n div 32)) (odd (n div 64)) (odd (n div 128))"
  by (simp add: char_of_def bit_iff_odd)

lemma first_some_cong_weak: "xs = ys \<Longrightarrow> first_some f xs = first_some f ys"
  by simp

lemmas class_defs = ord_def is_upper_def is_lower_def is_alpha_def is_digit_def is_space_def
  is_word_def latin1_alnum_def is_linebreak_def upper_chars_def ascii_upper_def ascii_lower_def
  ignorecase_def hyphen_def blank_def
  newline_def case_chars_def dept_chars_def id_chars_def caps_chars_def digit19_def char_of_eval

lemmas regex_defs = one_def opt_def star_def plus_def lit_def lit_i_def word_before_def
  word_at_def boundary_def last_char_def items_def match_here_def re_match_def re_search_def
  Let_def upt_rec

lemmas string_defs = str_find_def str_in_def slice_def clip_def strip_by_def strip_def
  strip_chars_def split_def splitlines_def upper_def

lemmas pattern_defs = CASE_RE_def DEPT_RE_def DATE_RE_def ID_LINE_RE_def WORDS_RE_def
  HYPHEN_RE_def SPACES_RE_def NUMBER_RE_def CAPS_RE_def KILLED_RE_def re_sub_def re_findall_def

lemmas parser_defs = name_only_of_def scan_line_def occupant_lines_def parse_occupants_def scan_results_def
  find_charged_driver_hint_def keys_def flag_commercial_def flag_fatal_def group1_or_empty_def
  yes_no_def or_empty_def

lemmas run = class_defs regex_defs string_defs pattern_defs parser_defs

section \<open>Substrings\<close>

lemma startswith_iff: "startswith s p \<longleftrightarrow> (\<exists>r. s = p @ r)"
  by (induction s p rule: startswith.induct) auto

lemma find_index_None_iff:
  "find_index s sub = None \<longleftrightarrow> \<not> (\<exists>pre post. s = pre @ sub @ post)"
proof (induction s)
  case Nil
  then show ?case by auto
next
  case (Cons c cs)
  have "(\<exists>pre post. c # cs = pre @ sub @ post) \<longleftrightarrow>
        startswith (c # cs) sub \<or> (\<exists>pre post. cs = pre @ sub @ post)"
  proof
    assume "\<exists>pre post. c # cs = pre @ sub @ post"
    then obtain pre post where e: "c # cs = pre @ sub @ post" by blast
    show "startswith (c # cs) sub \<or> (\<exists>pre post. cs = pre @ sub @ post)"
    proof (cases pre)
      case Nil
      with e show ?thesis by (auto simp: startswith_iff)
    next
      case (Cons a pre')
      with e have "cs = pre' @ sub @ post" by simp
      then show ?thesis by blast
    qed
  next
    assume "startswith (c # cs) sub \<or> (\<exists>pre post. cs = pre @ sub @ post)"
    then show "\<exists>pre post. c # cs = pre @ sub @ post"
    proof
      assume "startswith (c # cs) sub"
      then obtain r where "c # cs = [] @ sub @ r" by (auto simp: startswith_iff)
      then show ?thesis by blast
    next
      assume "\<exists>pre post. cs = pre @ sub @ post"
      then obtain pre post where "cs = pre @ sub @ post" by blast
      then have "c # cs = (c # pre) @ sub @ post" by simp
      then show ?thesis by blast
    qed
  qed
  with Cons show ?case by auto
qed

lemma str_in_iff: "str_in sub s \<longleftrightarrow> (\<exists>pre post. s = pre @ sub @ post)"
  by (simp add: str_in_def find_index_None_iff)

lemma str_find_absent: "str_find s sub = -1 \<longleftrightarrow> \<not> str_in sub s"
  by (auto simp: str_find_def str_in_def split: option.splits)

section \<open>Character classes, strip and slices\<close>

lemma space_not_word: "is_space c \<Longrightarrow> \<not> is_word c"
  by (auto simp: is_space_def is_word_def is_alpha_def is_upper_def is_lower_def is_digit_def
      latin1_alnum_def)

lemma digit_is_word: "is_digit c \<Longrightarrow> is_word c"
  by (simp add: is_word_def)

lemma strip_by_decomp:
  "\<exists>w1 w2. s = w1 @ strip_by p s @ w2 \<and> list_all p w1 \<and> list_all p w2"
proof -
  let ?t = "dropWhile p s"
  have 1: "s = takeWhile p s @ ?t" by simp
  have "rev ?t = takeWhile p (rev ?t) @ dropWhile p (rev ?t)" by simp
  then have "rev (rev ?t) = rev (takeWhile p (rev ?t) @ dropWhile p (rev ?t))" by simp
  then have 2: "?t = rev (dropWhile p (rev ?t)) @ rev (takeWhile p (rev ?t))"
    by (simp only: rev_rev_ident rev_append)
  have "s = takeWhile p s @ strip_by p s @ rev (takeWhile p (rev ?t))"
    unfolding strip_by_def using 2 by simp
  moreover have "list_all p (takeWhile p s)"
    by (auto simp: list_all_iff dest: set_takeWhileD)
  moreover have "list_all p (rev (takeWhile p (rev ?t)))"
    by (auto simp: list_all_iff dest: set_takeWhileD)
  ultimately show ?thesis by blast
qed

lemma slice_prefix: "slice s 0 (int k) = take k s"
  by (simp add: slice_def clip_def min_def)

lemma upper_chars_nonempty: "upper_chars c \<noteq> []"
  by (simp add: upper_chars_def)

lemma upper_Nil_iff: "upper s = [] \<longleftrightarrow> s = []"
  by (cases s) (simp_all add: upper_def upper_chars_nonempty)

section \<open>The matcher finds exactly the matches\<close>

lemma first_some_None_iff: "first_some f xs = None \<longleftrightarrow> (\<forall>x \<in> set xs. f x = None)"
  by (induction xs) (auto split: option.splits)

lemma first_some_SomeD: "first_some f xs = Some y \<Longrightarrow> \<exists>x \<in> set xs. f x = Some y"
  by (induction xs) (auto split: option.splits)

lemma first_some_not_None: "x \<in> set xs \<Longrightarrow> f x \<noteq> None \<Longrightarrow> first_some f xs \<noteq> None"
  by (auto simp: first_some_None_iff)

lemma take_within_run: "k \<le> length (takeWhile P s) \<Longrightarrow> list_all P (take k s)"
proof (induction s arbitrary: k)
  case Nil
  then show ?case by simp
next
  case (Cons c cs)
  then show ?case by (cases k) (auto split: if_splits)
qed

lemma run_covers: "list_all P seg \<Longrightarrow> length seg \<le> length (takeWhile P (seg @ t))"
  by (induction seg) auto

lemma match_items_sound:
  "match_items its prev s = Some segs \<Longrightarrow> \<exists>rest. s = concat segs @ rest \<and> fits its prev segs rest"
proof (induction its arbitrary: prev s segs)
  case Nil
  then show ?case by simp
next
  case (Cons it r)
  show ?case
  proof (cases it)
    case (Rep cls lo hi)
    define m where "m = (case hi of None \<Rightarrow> length (takeWhile cls s)
                          | Some h \<Rightarrow> min h (length (takeWhile cls s)))"
    let ?g = "\<lambda>k. map_option ((#) (take k s))
                 (match_items r (last_char prev (take k s)) (drop k s))"
    from Cons.prems Rep have "first_some ?g (rev [lo..<Suc m]) = Some segs"
      by (simp add: Let_def m_def)
    from first_some_SomeD [OF this] obtain k where k: "k \<in> set (rev [lo..<Suc m])"
      and fk: "?g k = Some segs"
      by blast
    from fk obtain segs' where s': "segs = take k s # segs'"
      and mr: "match_items r (last_char prev (take k s)) (drop k s) = Some segs'"
      by auto
    from Cons.IH [OF mr] obtain rest where rest: "drop k s = concat segs' @ rest"
      and f: "fits r (last_char prev (take k s)) segs' rest"
      by blast
    from k have klo: "lo \<le> k" and km: "k \<le> m" by auto
    from km have krun: "k \<le> length (takeWhile cls s)"
      by (auto simp: m_def split: option.splits)
    then have kall: "list_all cls (take k s)" by (rule take_within_run)
    from krun have "k \<le> length s"
      using length_takeWhile_le [of cls s] by linarith
    then have lk: "length (take k s) = k" by simp
    have hi_ok: "(case hi of None \<Rightarrow> True | Some h \<Rightarrow> length (take k s) \<le> h)"
      using km lk by (auto simp: m_def split: option.splits)
    have "s = concat segs @ rest"
      using rest s' append_take_drop_id [of k s] by simp
    moreover have "fits (it # r) prev segs rest"
      using Rep s' kall klo lk hi_ok f by simp
    ultimately show ?thesis by blast
  next
    case WordB
    with Cons.prems obtain segs' where s': "segs = [] # segs'" and b: "boundary prev s"
      and mr: "match_items r prev s = Some segs'"
      by (auto split: if_splits)
    from Cons.IH [OF mr] obtain rest where "s = concat segs' @ rest" "fits r prev segs' rest"
      by blast
    with WordB s' b show ?thesis by auto
  next
    case Bol
    with Cons.prems obtain segs' where s': "segs = [] # segs'" and b: "prev = None"
      and mr: "match_items r prev s = Some segs'"
      by (auto split: if_splits)
    from Cons.IH [OF mr] obtain rest where "s = concat segs' @ rest" "fits r prev segs' rest"
      by blast
    with Bol s' b show ?thesis by auto
  next
    case Eol
    with Cons.prems obtain segs' where s': "segs = [] # segs'"
      and b: "s = [] \<or> s = [CHR 0x0A]"
      and mr: "match_items r prev s = Some segs'"
      by (auto split: if_splits)
    from Cons.IH [OF mr] obtain rest where "s = concat segs' @ rest" "fits r prev segs' rest"
      by blast
    with Eol s' b show ?thesis by auto
  qed
qed

lemma match_items_complete:
  "fits its prev segs rest \<Longrightarrow> match_items its prev (concat segs @ rest) \<noteq> None"
proof (induction its arbitrary: prev segs)
  case Nil
  then show ?case by simp
next
  case (Cons it r)
  from Cons.prems obtain seg segs' where s': "segs = seg # segs'"
    by (cases segs) auto
  show ?case
  proof (cases it)
    case (Rep cls lo hi)
    let ?s = "seg @ concat segs' @ rest"
    define m where "m = (case hi of None \<Rightarrow> length (takeWhile cls ?s)
                          | Some h \<Rightarrow> min h (length (takeWhile cls ?s)))"
    from Cons.prems Rep s' have a: "list_all cls seg" and lo: "lo \<le> length seg"
      and hi: "case hi of None \<Rightarrow> True | Some h \<Rightarrow> length seg \<le> h"
      and f: "fits r (last_char prev seg) segs' rest"
      by auto
    from a have "length seg \<le> length (takeWhile cls ?s)" by (rule run_covers)
    with hi have "length seg \<le> m" by (auto simp: m_def split: option.splits)
    with lo have mem: "length seg \<in> set (rev [lo..<Suc m])" by auto
    let ?g = "\<lambda>k. map_option ((#) (take k ?s))
                 (match_items r (last_char prev (take k ?s)) (drop k ?s))"
    from Cons.IH [OF f] have "match_items r (last_char prev seg) (concat segs' @ rest) \<noteq> None" .
    then have "?g (length seg) \<noteq> None"
      by simp
    with mem have "first_some ?g (rev [lo..<Suc m]) \<noteq> None"
      by (rule first_some_not_None)
    then show ?thesis
      using Rep s' by (simp add: Let_def m_def)
  next
    case WordB
    with Cons.prems s' have "seg = []" "boundary prev (concat segs' @ rest)" "fits r prev segs' rest"
      by auto
    with Cons.IH [of prev segs'] WordB s' show ?thesis by simp
  next
    case Bol
    with Cons.prems s' have "seg = []" "prev = None" "fits r prev segs' rest"
      by auto
    with Cons.IH [of prev segs'] Bol s' show ?thesis by simp
  next
    case Eol
    with Cons.prems s' have "seg = []"
      "concat segs' @ rest = [] \<or> concat segs' @ rest = [CHR 0x0A]" "fits r prev segs' rest"
      by auto
    with Cons.IH [of prev segs'] Eol s' show ?thesis by auto
  qed
qed

lemma last_char_Cons: "last_char prev (c # p) = last_char (Some c) p"
  by (simp add: last_char_def)

lemma search_from_None_iff:
  "search_from r pos prev s = None \<longleftrightarrow>
     (\<forall>pre suf. s = pre @ suf \<longrightarrow> match_items (items r) (last_char prev pre) suf = None)"
proof (induction s arbitrary: pos prev)
  case Nil
  then show ?case by (simp add: match_here_def last_char_def)
next
  case (Cons c cs)
  have "(\<forall>pre suf. c # cs = pre @ suf \<longrightarrow> match_items (items r) (last_char prev pre) suf = None)
        \<longleftrightarrow> match_items (items r) prev (c # cs) = None \<and>
            (\<forall>pre suf. cs = pre @ suf \<longrightarrow> match_items (items r) (last_char (Some c) pre) suf = None)"
    (is "?L \<longleftrightarrow> ?A \<and> ?B")
  proof
    assume l: ?L
    from l [rule_format, of "[]" "c # cs"] have ?A by (simp add: last_char_def)
    moreover have ?B
    proof (intro allI impI)
      fix pre suf assume "cs = pre @ suf"
      then have "c # cs = (c # pre) @ suf" by simp
      from l [rule_format, OF this] show "match_items (items r) (last_char (Some c) pre) suf = None"
        by (simp add: last_char_Cons)
    qed
    ultimately show "?A \<and> ?B" ..
  next
    assume ab: "?A \<and> ?B"
    show ?L
    proof (intro allI impI)
      fix pre suf assume e: "c # cs = pre @ suf"
      show "match_items (items r) (last_char prev pre) suf = None"
      proof (cases pre)
        case Nil
        with e ab show ?thesis by (simp add: last_char_def)
      next
        case (Cons a pre')
        with e have "a = c" "cs = pre' @ suf" by auto
        with ab Cons show ?thesis by (simp add: last_char_Cons)
      qed
    qed
  qed
  with Cons.IH [of "Suc pos" "Some c"] show ?case
    by (auto simp: match_here_def split: option.splits)
qed

lemma re_search_None_iff:
  "re_search r s = None \<longleftrightarrow>
     (\<forall>pre suf. s = pre @ suf \<longrightarrow> match_items (items r) (last_char None pre) suf = None)"
  by (simp add: re_search_def search_from_None_iff)

lemma re_search_found_iff:
  "re_search r s \<noteq> None \<longleftrightarrow>
     (\<exists>pre segs rest. s = pre @ concat segs @ rest \<and> fits (items r) (last_char None pre) segs rest)"
proof
  assume "re_search r s \<noteq> None"
  then have "\<not> (\<forall>pre suf. s = pre @ suf \<longrightarrow>
               match_items (items r) (last_char None pre) suf = None)"
    unfolding re_search_None_iff .
  then obtain pre suf segs where s: "s = pre @ suf"
    and m: "match_items (items r) (last_char None pre) suf = Some segs"
    by auto
  from match_items_sound [OF m] obtain rest where "suf = concat segs @ rest"
    and f: "fits (items r) (last_char None pre) segs rest"
    by blast
  with s have "s = pre @ concat segs @ rest" by simp
  with f show "\<exists>pre segs rest. s = pre @ concat segs @ rest \<and> fits (items r) (last_char None pre) segs rest"
    by blast
next
  assume "\<exists>pre segs rest. s = pre @ concat segs @ rest \<and> fits (items r) (last_char None pre) segs rest"
  then obtain pre segs rest where s: "s = pre @ concat segs @ rest"
    and f: "fits (items r) (last_char None pre) segs rest"
    by blast
  show "re_search r s \<noteq> None"
  proof
    assume "re_search r s = None"
    then have "\<forall>pre suf. s = pre @ suf \<longrightarrow>
               match_items (items r) (last_char None pre) suf = None"
      unfolding re_search_None_iff .
    from this [rule_format, OF s] match_items_complete [OF f] show False
      by simp
  qed
qed

lemma fits_Rep:
  "fits (Rep cls lo hi # r) prev segs rest \<longleftrightarrow>
     (\<exists>seg segs'. segs = seg # segs' \<and> list_all cls seg \<and> lo \<le> length seg
        \<and> (case hi of None \<Rightarrow> True | Some h \<Rightarrow> length seg \<le> h)
        \<and> fits r (last_char prev seg) segs' rest)"
  by (cases segs) auto

lemma fits_one:
  "fits (one cls # r) prev segs rest \<longleftrightarrow>
     (\<exists>c segs'. segs = [c] # segs' \<and> cls c \<and> fits r (Some c) segs' rest)"
proof (cases segs)
  case Nil
  then show ?thesis by (simp add: one_def)
next
  case outer: (Cons seg segs')
  show ?thesis
  proof (cases seg)
    case Nil
    with outer show ?thesis by (simp add: one_def)
  next
    case (Cons c t)
    with outer show ?thesis by (cases t) (auto simp: one_def last_char_def)
  qed
qed

lemma fits_star:
  "fits (star cls # r) prev segs rest \<longleftrightarrow>
     (\<exists>seg segs'. segs = seg # segs' \<and> list_all cls seg \<and> fits r (last_char prev seg) segs' rest)"
  by (simp add: star_def fits_Rep)

lemma fits_opt:
  "fits (opt cls # r) prev segs rest \<longleftrightarrow>
     (\<exists>seg segs'. segs = seg # segs' \<and> list_all cls seg \<and> length seg \<le> 1
        \<and> fits r (last_char prev seg) segs' rest)"
  by (simp add: opt_def fits_Rep)

lemma fits_WordB:
  "fits (WordB # r) prev segs rest \<longleftrightarrow>
     (\<exists>segs'. segs = [] # segs' \<and> boundary prev (concat segs' @ rest) \<and> fits r prev segs' rest)"
  by (cases segs) auto

lemma fits_lit:
  "fits (lit w @ r) prev segs rest \<longleftrightarrow>
     (\<exists>segs'. segs = map (\<lambda>c. [c]) w @ segs' \<and> fits r (last_char prev w) segs' rest)"
proof (induction w arbitrary: prev segs)
  case Nil
  then show ?case by (simp add: lit_def last_char_def)
next
  case (Cons c w)
  have "lit (c # w) @ r = one (\<lambda>x. x = c) # (lit w @ r)"
    by (simp add: lit_def)
  then show ?case
    by (auto simp: fits_one Cons.IH last_char_def)
qed

lemma fits_litD:
  "fits (lit w @ r) prev segs rest \<Longrightarrow>
   \<exists>segs' p. segs = map (\<lambda>c. [c]) w @ segs' \<and> fits r p segs' rest"
  unfolding fits_lit by blast

lemma fits_starD:
  "fits (star cls # r) prev segs rest \<Longrightarrow>
   \<exists>seg segs' p. segs = seg # segs' \<and> list_all cls seg \<and> fits r p segs' rest"
  unfolding fits_star by blast

lemma fits_optD:
  "fits (opt cls # r) prev segs rest \<Longrightarrow>
   \<exists>seg segs' p. segs = seg # segs' \<and> list_all cls seg \<and> length seg \<le> 1 \<and> fits r p segs' rest"
  unfolding fits_opt by blast

lemma fits_oneD:
  "fits (one cls # r) prev segs rest \<Longrightarrow>
   \<exists>c segs'. segs = [c] # segs' \<and> cls c \<and> fits r (Some c) segs' rest"
  unfolding fits_one by blast

lemma search_from_SomeD:
  "search_from r pos prev s = Some m \<Longrightarrow>
   pos \<le> m_start m \<and> m_start m - pos \<le> length s
   \<and> match_items (items r) (last_char prev (take (m_start m - pos) s))
         (drop (m_start m - pos) s) \<noteq> None
   \<and> (\<forall>k < m_start m - pos.
         match_items (items r) (last_char prev (take k s)) (drop k s) = None)"
proof (induction s arbitrary: pos prev)
  case Nil
  then show ?case by (auto simp: match_here_def last_char_def)
next
  case (Cons c cs)
  show ?case
  proof (cases "match_items (items r) prev (c # cs)")
    case (Some segs)
    with Cons.prems have "m_start m = pos"
      by (auto simp: match_here_def)
    with Some show ?thesis by (simp add: last_char_def)
  next
    case None
    with Cons.prems have "search_from r (Suc pos) (Some c) cs = Some m"
      by (simp add: match_here_def)
    from Cons.IH [OF this] have le: "Suc pos \<le> m_start m"
      and len: "m_start m - Suc pos \<le> length cs"
      and mt: "match_items (items r) (last_char (Some c) (take (m_start m - Suc pos) cs))
                 (drop (m_start m - Suc pos) cs) \<noteq> None"
      and mn: "\<forall>k < m_start m - Suc pos.
                 match_items (items r) (last_char (Some c) (take k cs)) (drop k cs) = None"
      by simp_all
    from le obtain j where j: "m_start m - pos = Suc j" "m_start m - Suc pos = j"
      by (cases "m_start m - pos") auto
    have "match_items (items r) (last_char prev (take k (c # cs))) (drop k (c # cs)) = None"
      if "k < Suc j" for k
    proof (cases k)
      case 0
      with None show ?thesis by (simp add: last_char_def)
    next
      case (Suc i)
      with that mn j show ?thesis by (simp add: last_char_Cons)
    qed
    with le len mt j show ?thesis by (simp add: last_char_Cons)
  qed
qed

lemma re_search_SomeD:
  assumes "re_search r s = Some m"
  shows "m_start m \<le> length s
     \<and> match_items (items r) (last_char None (take (m_start m) s)) (drop (m_start m) s) \<noteq> None
     \<and> (\<forall>k < m_start m.
           match_items (items r) (last_char None (take k s)) (drop k s) = None)"
  using search_from_SomeD [of r 0 None s m] assms by (simp add: re_search_def)

section \<open>The sample report\<close>

lemma sample_scan:
  "scan_results sample = [\<lparr>name = ''JOHN SMITH''\<rparr>, \<lparr>name = ''JANE DOE''\<rparr>, \<lparr>name = ''JOHN SMITH''\<rparr>]"
  by (simp add: sample_def run cong: first_some_cong_weak)

lemma sample_occupants:
  "parse_occupants sample = [\<lparr>name = ''JOHN SMITH''\<rparr>, \<lparr>name = ''JANE DOE''\<rparr>]"
  by (simp add: sample_def run cong: first_some_cong_weak)

lemma sample_hint: "find_charged_driver_hint sample = Some ''JOHN SMITH''"
  by (simp add: sample_def run cong: first_some_cong_weak)

lemma sample_mixed_occupants:
  "parse_occupants sample_mixed =
     [\<lparr>name = ''John Strau'' @ [CHR 0xDF]\<rparr>, \<lparr>name = ''Jane'' @ [CHR 0xA0] @ ''Doe''\<rparr>,
      \<lparr>name = ''Al Roe N'' @ [CHR 0xBA] @ ''12 Main''\<rparr>, \<lparr>name = ''Mary Ann Lee''\<rparr>,
      \<lparr>name = ''JOHN STRAUSS''\<rparr>]"
  by (simp add: sample_mixed_def run cong: first_some_cong_weak)

lemma sample_mixed_hint: "find_charged_driver_hint sample_mixed = Some ''JOHN STRAUSS''"
  by (simp add: sample_mixed_def run cong: first_some_cong_weak)

section \<open>The charged-driver hint\<close>





lemma last_char_append: "last_char (last_char prev a) b = last_char prev (a @ b)"
  by (simp add: last_char_def)

lemma search_from_Some_here:
  "search_from r pos prev s = Some m \<Longrightarrow>
   match_here r (m_start m) (last_char prev (take (m_start m - pos) s))
     (drop (m_start m - pos) s) = Some m"
proof (induction s arbitrary: pos prev)
  case Nil
  then show ?case by (auto simp: match_here_def last_char_def)
next
  case (Cons c cs)
  show ?case
  proof (cases "match_here r pos prev (c # cs)")
    case (Some m')
    with Cons.prems have "m' = m" by simp
    moreover from Some have "m_start m' = pos" by (auto simp: match_here_def)
    ultimately show ?thesis using Some by (simp add: last_char_def)
  next
    case None
    with Cons.prems have s: "search_from r (Suc pos) (Some c) cs = Some m" by simp
    from search_from_SomeD [OF s] have "Suc pos \<le> m_start m" by simp
    then obtain j where j: "m_start m - pos = Suc j" "m_start m - Suc pos = j"
      by (cases "m_start m - pos") auto
    from Cons.IH [OF s] j show ?thesis by (simp add: last_char_Cons)
  qed
qed

lemma findall_from_unfold:
  "search_from r 0 prev s = Some m \<Longrightarrow>
   findall_from r prev s =
     (if 0 < m_end m \<and> m_end m \<le> length s then
        group1 m # findall_from r (last_char prev (take (m_end m) s)) (drop (m_end m) s)
      else [group1 m])"
  by (subst findall_from.simps) simp

lemma findall_from_none: "search_from r 0 prev s = None \<Longrightarrow> findall_from r prev s = []"
  by (subst findall_from.simps) simp

lemma search_from_segs:
  assumes "search_from r 0 prev s = Some m"
  shows "\<exists>segs rest. s = take (m_start m) s @ concat segs @ rest
     \<and> fits (items r) (last_char prev (take (m_start m) s)) segs rest
     \<and> group1 m = concat (take (length (group r)) (drop (length (before r)) segs))"
proof -
  from search_from_Some_here [OF assms]
  have "match_here r (m_start m) (last_char prev (take (m_start m) s)) (drop (m_start m) s)
        = Some m"
    by simp
  then obtain segs where
    ms: "match_items (items r) (last_char prev (take (m_start m) s)) (drop (m_start m) s)
         = Some segs"
    and rec: "\<lparr>m_start = m_start m, m_end = m_start m + length (concat segs),
             group1 = concat (take (length (group r)) (drop (length (before r)) segs))\<rparr> = m"
    by (auto simp: match_here_def)
  from arg_cong [OF rec, of group1]
  have g: "group1 m = concat (take (length (group r)) (drop (length (before r)) segs))"
    by simp
  from match_items_sound [OF ms] obtain rest where d: "drop (m_start m) s = concat segs @ rest"
    and f: "fits (items r) (last_char prev (take (m_start m) s)) segs rest"
    by blast
  have "s = take (m_start m) s @ drop (m_start m) s" by simp
  with d have "s = take (m_start m) s @ concat segs @ rest" by simp
  with f g show ?thesis by blast
qed

lemma findall_from_sound:
  "g \<in> set (findall_from r prev s) \<Longrightarrow>
   \<exists>pre segs rest. s = pre @ concat segs @ rest
     \<and> fits (items r) (last_char prev pre) segs rest
     \<and> g = concat (take (length (group r)) (drop (length (before r)) segs))"
proof (induction r prev s rule: findall_from.induct)
  case (1 r prev s)
  show ?case
  proof (cases "search_from r 0 prev s")
    case None
    with "1.prems" show ?thesis by (simp add: findall_from_none del: findall_from.simps)
  next
    case (Some m)
    note unf = findall_from_unfold [OF Some]
    from search_from_segs [OF Some] obtain segs rest where
      hd: "s = take (m_start m) s @ concat segs @ rest"
      "fits (items r) (last_char prev (take (m_start m) s)) segs rest"
      "group1 m = concat (take (length (group r)) (drop (length (before r)) segs))"
      by blast
    show ?thesis
    proof (cases "g = group1 m")
      case True
      with hd show ?thesis by blast
    next
      case False
      with "1.prems" unf have c: "0 < m_end m \<and> m_end m \<le> length s"
        and mem: "g \<in> set (findall_from r (last_char prev (take (m_end m) s)) (drop (m_end m) s))"
        by (auto simp del: findall_from.simps split: if_splits)
      from "1.IH" [OF Some c mem] obtain pre' segs' rest' where
        d: "drop (m_end m) s = pre' @ concat segs' @ rest'"
        and f: "fits (items r) (last_char (last_char prev (take (m_end m) s)) pre') segs' rest'"
        and g: "g = concat (take (length (group r)) (drop (length (before r)) segs'))"
        by blast
      have "s = take (m_end m) s @ drop (m_end m) s" by simp
      with d have "s = (take (m_end m) s @ pre') @ concat segs' @ rest'" by simp
      moreover from f have "fits (items r) (last_char prev (take (m_end m) s @ pre')) segs' rest'"
        by (simp only: last_char_append)
      ultimately show ?thesis using g by blast
    qed
  qed
qed

lemma caps_items:
  "items CAPS_RE = [one newline, one is_upper, Rep caps_chars 4 (Some 60), one newline]"
  by (simp add: CAPS_RE_def items_def)

lemma caps_fits_iff:
  "fits (items CAPS_RE) prev segs rest \<longleftrightarrow>
     (\<exists>c cs. segs = [[CHR 0x0A], [c], cs, [CHR 0x0A]] \<and> is_upper c \<and> list_all caps_chars cs
        \<and> 4 \<le> length cs \<and> length cs \<le> 60)"
  unfolding caps_items fits_one fits_Rep
  by (auto simp: newline_def)

lemma caps_group:
  "concat (take (length (group CAPS_RE)) (drop (length (before CAPS_RE)) [[a], [c], cs, [b]]))
   = c # cs"
  by (simp add: CAPS_RE_def)




lemma first_hint_SomeD:
  "first_hint caps = Some h \<Longrightarrow>
   \<exists>cand \<in> set caps. h = join '' '' (split cand) \<and> 2 \<le> length (split h) \<and> length (split h) \<le> 5"
proof (induction caps)
  case Nil
  then show ?case by simp
next
  case (Cons cand caps)
  show ?case
  proof (cases "2 \<le> length (split (join '' '' (split cand)))
                \<and> length (split (join '' '' (split cand))) \<le> 5")
    case True
    with Cons.prems have "h = join '' '' (split cand)" by (simp add: Let_def)
    with True show ?thesis by simp
  next
    case False
    with Cons.prems have "first_hint caps = Some h" by (simp add: Let_def)
    from Cons.IH [OF this] show ?thesis by auto
  qed
qed


lemma findall_caps_sound:
  assumes "cand \<in> set (re_findall CAPS_RE w)"
  shows "\<exists>pre post. caps_line_at w pre cand post"
proof -
  from assms have "cand \<in> set (findall_from CAPS_RE None w)"
    by (simp add: re_findall_def)
  from findall_from_sound [OF this] obtain pre segs rest where w: "w = pre @ concat segs @ rest"
    and f: "fits (items CAPS_RE) (last_char None pre) segs rest"
    and g: "cand = concat (take (length (group CAPS_RE)) (drop (length (before CAPS_RE)) segs))"
    by blast
  from f obtain c cs where segs: "segs = [[CHR 0x0A], [c], cs, [CHR 0x0A]]"
    and l: "is_upper c" "list_all caps_chars cs" "4 \<le> length cs" "length cs \<le> 60"
    unfolding caps_fits_iff by blast
  from g segs have cand: "cand = c # cs" by (simp only: caps_group)
  with l have "caps_line cand" unfolding caps_line_def by blast
  moreover from w segs cand have "w = pre @ [CHR 0x0A] @ cand @ [CHR 0x0A] @ rest" by simp
  ultimately show ?thesis unfolding caps_line_at_def by blast
qed







section \<open>The fatal flag\<close>

lemma killed_items:
  "items KILLED_RE =
     WordB # (lit ''8'' @ star is_space # (lit ''Total'' @ star is_space
       # (lit ''Killed'' @ [star is_space, opt newline, one digit19])))"
  by (simp add: KILLED_RE_def items_def)

lemma killed_fitsD:
  assumes "fits (items KILLED_RE) prev segs rest"
  shows "\<exists>ws1 ws2 ws3 n d.
        segs = [[], ''8'', ws1, ''T'', ''o'', ''t'', ''a'', ''l'', ws2,
                ''K'', ''i'', ''l'', ''l'', ''e'', ''d'', ws3, n, [d]]
        \<and> \<not> word_before prev
        \<and> list_all is_space ws1 \<and> list_all is_space ws2 \<and> list_all is_space ws3
        \<and> list_all newline n \<and> length n \<le> 1 \<and> digit19 d"
proof -
  let ?r3 = "[star is_space, opt newline, one digit19]"
  let ?r2 = "star is_space # (lit ''Killed'' @ ?r3)"
  let ?r1 = "star is_space # (lit ''Total'' @ ?r2)"
  from assms have "fits (WordB # (lit ''8'' @ ?r1)) prev segs rest"
    by (simp add: killed_items)
  then obtain s1 where 1: "segs = [] # s1" and b: "boundary prev (concat s1 @ rest)"
    and f1: "fits (lit ''8'' @ ?r1) prev s1 rest"
    unfolding fits_WordB by blast
  from fits_litD [OF f1] obtain s2 p2 where 2: "s1 = map (\<lambda>c. [c]) ''8'' @ s2"
    and f2: "fits ?r1 p2 s2 rest"
    by blast
  from fits_starD [OF f2] obtain ws1 s3 p3 where 3: "s2 = ws1 # s3" and w1: "list_all is_space ws1"
    and f3: "fits (lit ''Total'' @ ?r2) p3 s3 rest"
    by blast
  from fits_litD [OF f3] obtain s4 p4 where 4: "s3 = map (\<lambda>c. [c]) ''Total'' @ s4"
    and f4: "fits ?r2 p4 s4 rest"
    by blast
  from fits_starD [OF f4] obtain ws2 s5 p5 where 5: "s4 = ws2 # s5" and w2: "list_all is_space ws2"
    and f5: "fits (lit ''Killed'' @ ?r3) p5 s5 rest"
    by blast
  from fits_litD [OF f5] obtain s6 p6 where 6: "s5 = map (\<lambda>c. [c]) ''Killed'' @ s6"
    and f6: "fits ?r3 p6 s6 rest"
    by blast
  from fits_starD [OF f6] obtain ws3 s7 p7 where 7: "s6 = ws3 # s7" and w3: "list_all is_space ws3"
    and f7: "fits [opt newline, one digit19] p7 s7 rest"
    by blast
  from fits_optD [OF f7] obtain n s8 p8 where 8: "s7 = n # s8" and n: "list_all newline n"
    "length n \<le> 1" and f8: "fits [one digit19] p8 s8 rest"
    by blast
  from fits_oneD [OF f8] obtain d s9 where 9: "s8 = [d] # s9" and d: "digit19 d"
    and f9: "fits [] (Some d) s9 rest"
    by blast
  from f9 have 10: "s9 = []" by simp
  have segs: "segs = [[], ''8'', ws1, ''T'', ''o'', ''t'', ''a'', ''l'', ws2,
                ''K'', ''i'', ''l'', ''l'', ''e'', ''d'', ws3, n, [d]]"
    by (simp add: 1 2 3 4 5 6 7 8 9 10)
  have "word_at (concat s1 @ rest)"
    by (simp add: 2 word_at_def is_word_def is_digit_def ord_def)
  with b have "\<not> word_before prev" by (simp add: boundary_def)
  with segs w1 w2 w3 n d show ?thesis by blast
qed

lemma killed_fitsI:
  assumes "\<not> word_before prev" "list_all is_space ws1" "list_all is_space ws2"
    "list_all is_space ws3" "digit19 d"
  shows "fits (items KILLED_RE) prev
           [[], ''8'', ws1, ''T'', ''o'', ''t'', ''a'', ''l'', ws2,
            ''K'', ''i'', ''l'', ''l'', ''e'', ''d'', ws3, [], [d]] rest"
  using assms
  by (simp add: killed_items lit_def one_def star_def opt_def boundary_def word_at_def
      is_word_def is_digit_def ord_def)

lemma newline_is_space: "newline c \<Longrightarrow> is_space c"
  by (simp add: newline_def is_space_def ord_def)

lemma killed_search_iff: "re_search KILLED_RE text \<noteq> None \<longleftrightarrow> killed_pattern text"
proof
  assume "re_search KILLED_RE text \<noteq> None"
  then obtain pre segs rest where t: "text = pre @ concat segs @ rest"
    and f: "fits (items KILLED_RE) (last_char None pre) segs rest"
    unfolding re_search_found_iff by blast
  from killed_fitsD [OF f] obtain ws1 ws2 ws3 n d where
    segs: "segs = [[], ''8'', ws1, ''T'', ''o'', ''t'', ''a'', ''l'', ws2,
                   ''K'', ''i'', ''l'', ''l'', ''e'', ''d'', ws3, n, [d]]"
    and b: "\<not> word_before (last_char None pre)"
    and w: "list_all is_space ws1" "list_all is_space ws2" "list_all is_space ws3"
    and n: "list_all newline n" and d: "digit19 d"
    by blast
  from n have "list_all is_space n"
    by (auto simp: list_all_iff newline_is_space)
  with w have w3: "list_all is_space (ws3 @ n)" by simp
  from b have p: "pre = [] \<or> \<not> is_word (last pre)"
    by (auto simp: word_before_def last_char_def split: if_splits)
  from t segs have "text = pre @ ''8'' @ ws1 @ ''Total'' @ ws2 @ ''Killed'' @ (ws3 @ n) @ [d] @ rest"
    by simp
  with p w w3 d show "killed_pattern text"
    unfolding killed_pattern_def by blast
next
  assume "killed_pattern text"
  then obtain pre ws1 ws2 ws3 d post where
    t: "text = pre @ ''8'' @ ws1 @ ''Total'' @ ws2 @ ''Killed'' @ ws3 @ [d] @ post"
    and b: "pre = [] \<or> \<not> is_word (last pre)"
    and w: "list_all is_space ws1" "list_all is_space ws2" "list_all is_space ws3" "digit19 d"
    unfolding killed_pattern_def by blast
  let ?segs = "[[], ''8'', ws1, ''T'', ''o'', ''t'', ''a'', ''l'', ws2,
                ''K'', ''i'', ''l'', ''l'', ''e'', ''d'', ws3, [], [d]]"
  from b have "\<not> word_before (last_char None pre)"
    by (auto simp: word_before_def last_char_def)
  from killed_fitsI [OF this w]
  have f: "fits (items KILLED_RE) (last_char None pre) ?segs post" .
  from t have "text = pre @ concat ?segs @ post" by simp
  with f show "re_search KILLED_RE text \<noteq> None"
    unfolding re_search_found_iff by blast
qed

text \<open>
  C2. The fatal flag of a text is true exactly when the text has the substring
  \<^verbatim>\<open>Total Killed\<close> and the pattern of \<^verbatim>\<open>8 Total Killed\<close> followed, after optional white space, by a
  digit from 1 to 9 is found in it. Either condition without the other gives a false flag.
\<close>

theorem fatal_flag_iff:
  "truth (flag_fatal text) \<longleftrightarrow>
     (\<exists>pre post. text = pre @ ''Total Killed'' @ post) \<and> killed_pattern text"
proof -
  have "truth (flag_fatal text) \<longleftrightarrow>
          str_in ''Total Killed'' text \<and> re_search KILLED_RE text \<noteq> None"
    by (cases "re_search KILLED_RE text") (simp_all add: flag_fatal_def)
  then show ?thesis
    by (simp only: str_in_iff killed_search_iff)
qed

text \<open>
  A text with both; a text where the pattern is found (it allows no white space between the
  words) but the substring is absent; a text with the substring but without the \<^verbatim>\<open>8\<close>. And
  two texts beyond ASCII: a no-break space (160) is white space between \<^verbatim>\<open>8\<close> and \<^verbatim>\<open>Total\<close>, so
  the flag is true; the letter 213 directly before the \<^verbatim>\<open>8\<close> is a word character, so the
  pattern is not found there and the flag is false.
\<close>

theorem fatal_flag_witness:
  "truth (flag_fatal ''8 Total Killed 1'') \<and>
   killed_pattern ''8TotalKilled1'' \<and> \<not> truth (flag_fatal ''8TotalKilled1'') \<and>
   str_in ''Total Killed'' ''Total Killed 1'' \<and> \<not> truth (flag_fatal ''Total Killed 1'') \<and>
   truth (flag_fatal (''8'' @ [CHR 0xA0] @ ''Total Killed 1'')) \<and>
   \<not> truth (flag_fatal (CHR 0xD5 # ''8 Total Killed 1'')) \<and>
   \<not> killed_pattern (CHR 0xD5 # ''8 Total Killed 1'')"
proof -
  have k1: "killed_pattern ''8 Total Killed 1''"
    unfolding killed_pattern_def
    by (rule exI [of _ "[]"], rule exI [of _ "'' ''"], rule exI [of _ "'' ''"],
        rule exI [of _ "'' ''"], rule exI [of _ "CHR ''1''"], rule exI [of _ "[]"])
      (simp add: digit19_def is_space_def ord_def)
  have s1: "str_in ''Total Killed'' ''8 Total Killed 1''"
    by (simp add: str_in_def)
  have k2: "killed_pattern ''8TotalKilled1''"
    unfolding killed_pattern_def
    by (rule exI [of _ "[]"], rule exI [of _ "[]"], rule exI [of _ "[]"],
        rule exI [of _ "[]"], rule exI [of _ "CHR ''1''"], rule exI [of _ "[]"])
      (simp add: digit19_def ord_def)
  have s2: "\<not> str_in ''Total Killed'' ''8TotalKilled1''"
    by (simp add: str_in_def)
  have s3: "str_in ''Total Killed'' ''Total Killed 1''"
    by (simp add: str_in_def)
  have k3: "\<not> truth (flag_fatal ''Total Killed 1'')"
    by (simp add: run cong: first_some_cong_weak)
  have k4: "killed_pattern (''8'' @ [CHR 0xA0] @ ''Total Killed 1'')"
    unfolding killed_pattern_def
    by (rule exI [of _ "[]"], rule exI [of _ "[CHR 0xA0]"], rule exI [of _ "'' ''"],
        rule exI [of _ "'' ''"], rule exI [of _ "CHR ''1''"], rule exI [of _ "[]"])
      (simp add: digit19_def is_space_def ord_def)
  have s4: "str_in ''Total Killed'' (''8'' @ [CHR 0xA0] @ ''Total Killed 1'')"
    by (simp add: str_in_def)
  have s5: "str_in ''Total Killed'' (CHR 0xD5 # ''8 Total Killed 1'')"
    by (simp add: str_in_def)
  have k5: "\<not> truth (flag_fatal (CHR 0xD5 # ''8 Total Killed 1''))"
    by (simp add: run cong: first_some_cong_weak)
  from k1 s1 have "truth (flag_fatal ''8 Total Killed 1'')"
    unfolding fatal_flag_iff str_in_iff by simp
  moreover from s2 have "\<not> truth (flag_fatal ''8TotalKilled1'')"
    unfolding fatal_flag_iff str_in_iff by simp
  moreover from k4 s4 have "truth (flag_fatal (''8'' @ [CHR 0xA0] @ ''Total Killed 1''))"
    unfolding fatal_flag_iff str_in_iff by simp
  moreover have "\<not> killed_pattern (CHR 0xD5 # ''8 Total Killed 1'')"
  proof -
    define t where "t = CHR 0xD5 # ''8 Total Killed 1''"
    have "\<not> truth (flag_fatal t)" "str_in ''Total Killed'' t"
      using k5 s5 unfolding t_def by blast+
    moreover have "truth (flag_fatal t) \<longleftrightarrow> str_in ''Total Killed'' t \<and> killed_pattern t"
      using fatal_flag_iff [of t] unfolding str_in_iff .
    ultimately have "\<not> killed_pattern t"
      by blast
    then show ?thesis unfolding t_def .
  qed
  ultimately show ?thesis using k2 s3 k3 k5 by simp
qed

section \<open>The not-at-fault label\<close>

lemma first_hint_nonempty: "first_hint caps = Some h \<Longrightarrow> h \<noteq> []"
proof (induction caps)
  case Nil
  then show ?case by simp
next
  case (Cons cand caps)
  show ?case
  proof (cases "2 \<le> length (split (join '' '' (split cand)))
                \<and> length (split (join '' '' (split cand))) \<le> 5")
    case True
    with Cons.prems have "h = join '' '' (split cand)" by (simp add: Let_def)
    with True have "2 \<le> length (split h)" by simp
    then show ?thesis by (auto simp: split_def)
  next
    case False
    with Cons.prems have "first_hint caps = Some h" by (simp add: Let_def)
    then show ?thesis by (rule Cons.IH)
  qed
qed

lemma hint_nonempty: "find_charged_driver_hint text = Some h \<Longrightarrow> h \<noteq> []"
  by (auto simp: find_charged_driver_hint_def Let_def split: if_splits
      dest: first_hint_nonempty)

lemma parse_document_rows:
  "parse_occupants text \<noteq> [] \<Longrightarrow>
   parse_document text =
     map (\<lambda>occ.
           \<lparr>Case_Number = group1_or_empty (re_search CASE_RE text),
            Police_Dept = (case re_search DEPT_RE text of None \<Rightarrow> [] | Some d \<Rightarrow> strip (group1 d)),
            Date_of_Crash = group1_or_empty (re_search DATE_RE text),
            Name = name occ,
            NotAtFault =
              (if upper (or_empty (find_charged_driver_hint text)) \<noteq> []
                  \<and> str_in (upper (or_empty (find_charged_driver_hint text))) (upper (name occ))
               then ''No'' else ''Yes''),
            CommercialVehicleFlag = yes_no (flag_commercial text),
            FatalFlag = yes_no (truth (flag_fatal text))\<rparr>)
       (parse_occupants text)"
  by (simp add: parse_document_def Let_def)

lemma set_split_loop: "w \<in> set (split_loop cur s) \<Longrightarrow> set w \<subseteq> set cur \<union> set s"
proof (induction s arbitrary: cur)
  case Nil
  then show ?case by (auto split: if_splits)
next
  case (Cons c cs)
  show ?case
  proof (cases "is_space c")
    case True
    with Cons.prems have "w = rev cur \<or> w \<in> set (split_loop [] cs)"
      by (auto split: if_splits)
    then show ?thesis
    proof
      assume "w = rev cur"
      then show ?thesis by auto
    next
      assume "w \<in> set (split_loop [] cs)"
      from Cons.IH [OF this] show ?thesis by auto
    qed
  next
    case False
    with Cons.prems have "w \<in> set (split_loop (c # cur) cs)" by simp
    from Cons.IH [OF this] show ?thesis by auto
  qed
qed

lemma set_join: "set (join sep ws) \<subseteq> set sep \<union> (\<Union>w \<in> set ws. set w)"
  by (induction sep ws rule: join.induct) auto

lemma normalized_chars: "set (join '' '' (split s)) \<subseteq> insert (CHR '' '') (set s)"
proof -
  have "(\<Union>w \<in> set (split s). set w) \<subseteq> set s"
    using set_split_loop [of _ "[]" s] by (auto simp: split_def)
  with set_join [of "'' ''" "split s"] show ?thesis by auto
qed

lemma caps_line_chars: "caps_line L \<Longrightarrow> list_all caps_chars L"
  by (auto simp: caps_line_def caps_chars_def)

lemma hint_caps: "find_charged_driver_hint text = Some h \<Longrightarrow> list_all caps_chars h"
proof -
  assume h: "find_charged_driver_hint text = Some h"
  then obtain w where "first_hint (re_findall CAPS_RE w) = Some h"
    by (auto simp: find_charged_driver_hint_def Let_def split: if_splits)
  from first_hint_SomeD [OF this] obtain cand where c: "cand \<in> set (re_findall CAPS_RE w)"
    and n: "h = join '' '' (split cand)"
    by blast
  from findall_caps_sound [OF c] have "caps_line cand"
    by (auto simp: caps_line_at_def)
  then have "list_all caps_chars cand" by (rule caps_line_chars)
  moreover have "caps_chars (CHR '' '')" by (simp add: caps_chars_def blank_def)
  ultimately show ?thesis
    using normalized_chars [of cand] n by (auto simp: list_all_iff)
qed

lemma upper_chars_caps: "caps_chars c \<Longrightarrow> upper_chars c = [c]"
  by (auto simp: upper_chars_def caps_chars_def is_upper_def is_lower_def blank_def hyphen_def
      ord_def)

lemma upper_caps: "list_all caps_chars h \<Longrightarrow> upper h = h"
  by (induction h) (simp_all add: upper_def upper_chars_caps)

text \<open>
  C3. A text with occupants has one row for each of them, in their order, and the row of an
  occupant is labelled \<^verbatim>\<open>No\<close> when a charged-driver hint was found and the hint, letter case
  put aside, is a substring of the occupant's name, and \<^verbatim>\<open>Yes\<close> otherwise; without a hint
  every occupant's row is labelled \<^verbatim>\<open>Yes\<close>. Letter case is put aside as the code does it: the
  upper-cased hint is looked for in the upper-cased name; a hint is in upper case already.
\<close>

theorem not_at_fault_label:
  "i < length (parse_occupants text) \<Longrightarrow>
   length (parse_document text) = length (parse_occupants text) \<and>
   Name (parse_document text ! i) = name (parse_occupants text ! i) \<and>
   NotAtFault (parse_document text ! i) =
     (case find_charged_driver_hint text of
        None \<Rightarrow> ''Yes''
      | Some h \<Rightarrow>
          if \<exists>pre post. upper (name (parse_occupants text ! i)) = pre @ upper h @ post
          then ''No'' else ''Yes'') \<and>
   (\<forall>h. find_charged_driver_hint text = Some h \<longrightarrow> upper h = h)"
proof -
  assume i: "i < length (parse_occupants text)"
  then have ne: "parse_occupants text \<noteq> []" by auto
  have u: "\<forall>h. find_charged_driver_hint text = Some h \<longrightarrow> upper h = h"
    by (auto dest: hint_caps upper_caps)
  show ?thesis
  proof (cases "find_charged_driver_hint text")
    case None
    with i u show ?thesis
      by (simp add: parse_document_rows [OF ne] or_empty_def upper_def)
  next
    case (Some h)
    then have "upper h \<noteq> []" by (simp add: upper_Nil_iff hint_nonempty)
    with i Some u show ?thesis
      by (simp add: parse_document_rows [OF ne] or_empty_def str_in_iff)
  qed
qed

text \<open>
  On the report in mixed case the hint is \<^verbatim>\<open>JOHN STRAUSS\<close>. The first occupant, written in
  lower case with a sharp s, is labelled \<^verbatim>\<open>No\<close>: his name in upper case is \<^verbatim>\<open>JOHN STRAUSS\<close>.
  The second is labelled \<^verbatim>\<open>Yes\<close>.
\<close>

theorem not_at_fault_label_witness:
  "length (parse_occupants sample_mixed) = 5 \<and>
   name (parse_occupants sample_mixed ! 0) = ''John Strau'' @ [CHR 0xDF] \<and>
   upper (''John Strau'' @ [CHR 0xDF]) = ''JOHN STRAUSS'' \<and>
   NotAtFault (parse_document sample_mixed ! 0) = ''No'' \<and>
   NotAtFault (parse_document sample_mixed ! 1) = ''Yes''"
proof -
  have u: "upper (''John Strau'' @ [CHR 0xDF]) = ''JOHN STRAUSS''"
    by (simp add: upper_def class_defs)
  have v: "\<not> str_in ''JOHN STRAUSS'' (upper (''Jane'' @ [CHR 0xA0] @ ''Doe''))"
    by (simp add: str_in_def upper_def class_defs)
  have w: "upper ''JOHN STRAUSS'' = ''JOHN STRAUSS''"
    by (simp add: upper_def class_defs)
  have "str_in ''JOHN STRAUSS'' ''JOHN STRAUSS''"
    by (simp add: str_in_def)
  with not_at_fault_label [of 0 sample_mixed] not_at_fault_label [of 1 sample_mixed] u v w
  show ?thesis
    unfolding str_in_iff [symmetric]
    by (simp add: sample_mixed_occupants sample_mixed_hint)
qed

section \<open>The commercial flag\<close>

text \<open>
  C4. The commercial flag of a text is true exactly when the upper-cased text has one of the
  eight keywords \<^verbatim>\<open>USDOT\<close>, \<^verbatim>\<open>TRUCK\<close>, \<^verbatim>\<open>CARRIER\<close>, \<^verbatim>\<open>GVWR\<close>, \<^verbatim>\<open>PENSKE\<close>, \<^verbatim>\<open>FREIGHT\<close>,
  \<^verbatim>\<open>MC/MX\<close>, \<^verbatim>\<open>WEIGHT >= 26,001\<close> as a substring: a plain substring anywhere in the text,
  whatever stands before and behind it.
\<close>

theorem flag_commercial_iff:
  "flag_commercial text \<longleftrightarrow>
     (\<exists>k \<in> set [''USDOT'', ''TRUCK'', ''CARRIER'', ''GVWR'', ''PENSKE'', ''FREIGHT'', ''MC/MX'',
                 ''WEIGHT >= 26,001''].
        \<exists>pre post. upper text = pre @ k @ post)"
  unfolding flag_commercial_def Let_def keys_def list_ex_iff str_in_iff ..

text \<open>A text with a keyword in mixed case inside a phrase, and a text with none.\<close>

theorem flag_commercial_witness:
  "flag_commercial ''Penske truck rental'' \<and> \<not> flag_commercial ''sedan''"
  unfolding flag_commercial_iff
  by (simp add: upper_def class_defs Cons_eq_append_conv append_eq_Cons_conv)

section \<open>The occupant list is capped and has no name twice\<close>

lemma set_first_seen: "set (first_seen xs) = set xs"
  by (induction xs rule: first_seen.induct) auto

lemma distinct_first_seen: "distinct (first_seen xs)"
  by (induction xs rule: first_seen.induct) (auto simp: set_first_seen)

lemma dedup_loop_names:
  "map name (dedup_loop rs d seen) =
     map name d @ first_seen (filter (\<lambda>y. y \<notin> seen) (map name rs))"
proof (induction rs arbitrary: d seen)
  case Nil
  then show ?case by simp
next
  case (Cons r rs)
  have "filter (\<lambda>y. y \<noteq> name r) (filter (\<lambda>y. y \<notin> seen) (map name rs)) =
        filter (\<lambda>y. y \<notin> insert (name r) seen) (map name rs)"
    by (auto intro: filter_cong)
  with Cons show ?case by simp
qed

lemma parse_occupants_names:
  "map name (parse_occupants text) = take 30 (first_seen (map name (scan_results text)))"
  by (simp add: parse_occupants_def scan_results_def Let_def dedup_loop_names
      take_map [symmetric])

text \<open>
  C5. The occupant list of a text has at most 30 entries and no name twice, and it keeps the
  order in which the names were first seen: its names are the first 30 of the names the scan
  has accepted, each at its first appearance.
\<close>

theorem occupants_capped_distinct:
  "length (parse_occupants text) \<le> 30 \<and>
   distinct (map name (parse_occupants text)) \<and>
   map name (parse_occupants text) = take 30 (first_seen (map name (scan_results text)))"
proof -
  have "length (map name (parse_occupants text)) \<le> 30"
    unfolding parse_occupants_names by simp
  then have "length (parse_occupants text) \<le> 30"
    by simp
  moreover have "distinct (map name (parse_occupants text))"
    unfolding parse_occupants_names by (simp add: distinct_first_seen)
  ultimately show ?thesis by (simp add: parse_occupants_names)
qed

text \<open>On the sample report the second \<^verbatim>\<open>JOHN SMITH\<close> is dropped and the order is kept.\<close>

theorem occupants_capped_distinct_witness:
  "length (parse_occupants sample) \<le> 30 \<and>
   map name (parse_occupants sample) = [''JOHN SMITH'', ''JANE DOE'']"
  using occupants_capped_distinct [of sample] by (simp add: sample_scan)

section \<open>Accepted names have two to five tokens\<close>

lemma scan_line_tokens:
  "list_all (\<lambda>occ. 2 \<le> length (split (name occ)) \<and> length (split (name occ)) \<le> 5) rs \<Longrightarrow>
   list_all (\<lambda>occ. 2 \<le> length (split (name occ)) \<and> length (split (name occ)) \<le> 5) (scan_line rs l)"
  by (simp add: scan_line_def Let_def)

lemma foldl_scan_line_tokens:
  "list_all (\<lambda>occ. 2 \<le> length (split (name occ)) \<and> length (split (name occ)) \<le> 5) rs \<Longrightarrow>
   list_all (\<lambda>occ. 2 \<le> length (split (name occ)) \<and> length (split (name occ)) \<le> 5) (foldl scan_line rs ls)"
  by (induction ls arbitrary: rs) (simp_all add: scan_line_tokens)

lemma scan_results_tokens: "list_all (\<lambda>occ. 2 \<le> length (split (name occ)) \<and> length (split (name occ)) \<le> 5) (scan_results text)"
  by (simp add: scan_results_def Let_def foldl_scan_line_tokens)

lemma set_dedup_loop: "set (dedup_loop rs d seen) \<subseteq> set rs \<union> set d"
proof (induction rs arbitrary: d seen)
  case Nil
  then show ?case by simp
next
  case (Cons r rs)
  from Cons.IH [of "d @ [r]" "insert (name r) seen"] Cons.IH [of d seen]
  show ?case by auto
qed

lemma set_parse_occupants: "set (parse_occupants text) \<subseteq> set (scan_results text)"
proof -
  have "set (take 30 (dedup_loop rs [] {})) \<subseteq> set rs" for rs :: "occupant list"
    using set_dedup_loop [of rs "[]" "{}"] set_take_subset [of 30 "dedup_loop rs [] {}"] by auto
  then show ?thesis by (simp add: parse_occupants_def scan_results_def Let_def)
qed

text \<open>
  C6. Every name in the occupant list of a text splits at white space into at least 2 and at
  most 5 tokens.
\<close>

theorem occupant_token_count:
  "\<forall>occ \<in> set (parse_occupants text).
     2 \<le> length (split (name occ)) \<and> length (split (name occ)) \<le> 5"
  using set_parse_occupants [of "text"] scan_results_tokens [of "text"]
  by (auto simp: list_all_iff)

text \<open>
  On the sample report: the name that was followed by an address. On the report in mixed
  case: the name whose two tokens are separated by a no-break space, and the name that is
  left of the line with two blanks in a row, a hyphen and an address.
\<close>

theorem occupant_token_count_witness:
  "\<lparr>name = ''JANE DOE''\<rparr> \<in> set (parse_occupants sample) \<and>
   2 \<le> length (split ''JANE DOE'') \<and> length (split ''JANE DOE'') \<le> 5 \<and>
   \<lparr>name = ''Jane'' @ [CHR 0xA0] @ ''Doe''\<rparr> \<in> set (parse_occupants sample_mixed) \<and>
   2 \<le> length (split (''Jane'' @ [CHR 0xA0] @ ''Doe'')) \<and>
   split (''Jane'' @ [CHR 0xA0] @ ''Doe'') = [''Jane'', ''Doe''] \<and>
   \<lparr>name = ''Mary Ann Lee''\<rparr> \<in> set (parse_occupants sample_mixed) \<and>
   length (split ''Mary Ann Lee'') \<le> 5"
proof -
  have m: "\<lparr>name = ''JANE DOE''\<rparr> \<in> set (parse_occupants sample)"
    by (simp add: sample_occupants)
  have n: "\<lparr>name = ''Jane'' @ [CHR 0xA0] @ ''Doe''\<rparr> \<in> set (parse_occupants sample_mixed)"
    by (simp add: sample_mixed_occupants)
  have s: "split (''Jane'' @ [CHR 0xA0] @ ''Doe'') = [''Jane'', ''Doe'']"
    by (simp add: split_def class_defs)
  have k: "\<lparr>name = ''Mary Ann Lee''\<rparr> \<in> set (parse_occupants sample_mixed)"
    by (simp add: sample_mixed_occupants)
  from occupant_token_count [of sample, rule_format, OF m]
    occupant_token_count [of sample_mixed, rule_format, OF n]
    occupant_token_count [of sample_mixed, rule_format, OF k] m n s k
  show ?thesis by simp
qed

section \<open>Documents without the occupants anchor\<close>

lemma parse_occupants_absent:
  "\<not> str_in ''Names & Addresses of Occupants'' text \<Longrightarrow> parse_occupants text = []"
  by (simp add: parse_occupants_def str_find_absent)

lemma parse_document_empty:
  "parse_occupants text = [] \<Longrightarrow>
   parse_document text =
     [\<lparr>Case_Number = group1_or_empty (re_search CASE_RE text),
       Police_Dept = (case re_search DEPT_RE text of None \<Rightarrow> [] | Some d \<Rightarrow> strip (group1 d)),
       Date_of_Crash = group1_or_empty (re_search DATE_RE text),
       Name = ''(no occupants parsed)'',
       NotAtFault = [],
       CommercialVehicleFlag = yes_no (flag_commercial text),
       FatalFlag = yes_no (truth (flag_fatal text))\<rparr>]"
  by (simp add: parse_document_def Let_def)

text \<open>
  C7. For a text without the anchor phrase \<^verbatim>\<open>Names & Addresses of Occupants\<close> the occupant
  list is empty and \<^verbatim>\<open>parse_document\<close> returns exactly one row; its name is the placeholder
  \<^verbatim>\<open>(no occupants parsed)\<close> and its not-at-fault field is the empty string, which is neither
  \<^verbatim>\<open>Yes\<close> nor \<^verbatim>\<open>No\<close>. Both functions are total: no step of theirs can raise.
\<close>

theorem no_anchor_placeholder:
  "\<not> str_in ''Names & Addresses of Occupants'' text \<Longrightarrow>
   parse_occupants text = [] \<and>
   (\<exists>r. parse_document text = [r] \<and> Name r = ''(no occupants parsed)'' \<and> NotAtFault r = []
        \<and> NotAtFault r \<noteq> ''Yes'' \<and> NotAtFault r \<noteq> ''No'')"
  by (simp add: parse_occupants_absent parse_document_empty)

text \<open>A text that has the beginning of the anchor phrase only.\<close>

theorem no_anchor_placeholder_witness:
  "\<not> str_in ''Names & Addresses of Occupants'' ''Names & Addresses: JOHN SMITH'' \<and>
   parse_occupants ''Names & Addresses: JOHN SMITH'' = [] \<and>
   length (parse_document ''Names & Addresses: JOHN SMITH'') = 1"
proof -
  have h: "\<not> str_in ''Names & Addresses of Occupants'' ''Names & Addresses: JOHN SMITH''"
    by (simp add: str_in_def)
  from no_anchor_placeholder [OF h] h show ?thesis by auto
qed

section \<open>Documents in which nothing is recognised\<close>



section \<open>The scenario of the specification\<close>

lemma scenario_case: "group1_or_empty (re_search CASE_RE scenario) = ''ABC123''"
  by (simp add: scenario_def run cong: first_some_cong_weak)

lemma scenario_dept:
  "(case re_search DEPT_RE scenario of None \<Rightarrow> [] | Some d \<Rightarrow> strip (group1 d)) = ''TEST CITY PD''"
  by (simp add: scenario_def run cong: first_some_cong_weak)

lemma scenario_date: "group1_or_empty (re_search DATE_RE scenario) = ''01/02/23''"
  by (simp add: scenario_def run cong: first_some_cong_weak)

lemma scenario_occupants: "parse_occupants scenario = [\<lparr>name = ''JOHN SMITH''\<rparr>]"
  by (simp add: scenario_def run cong: first_some_cong_weak)

lemma scenario_hint: "find_charged_driver_hint scenario = None"
  by (simp add: scenario_def run cong: first_some_cong_weak)

lemma scenario_commercial: "\<not> flag_commercial scenario"
  by (simp add: scenario_def run cong: first_some_cong_weak)

lemma scenario_fatal: "\<not> truth (flag_fatal scenario)"
  by (simp add: scenario_def run cong: first_some_cong_weak)

text \<open>
  C9. For the scenario text, which has no \<^verbatim>\<open>136 Charge\<close> anchor, \<^verbatim>\<open>parse_document\<close> returns exactly
  one row: case number \<^verbatim>\<open>ABC123\<close>, police department \<^verbatim>\<open>TEST CITY PD\<close>, date of the crash
  \<^verbatim>\<open>01/02/23\<close>, name \<^verbatim>\<open>JOHN SMITH\<close>, not at fault \<^verbatim>\<open>Yes\<close>, commercial vehicle \<^verbatim>\<open>No\<close>, fatal
  \<^verbatim>\<open>No\<close>.
\<close>

theorem scenario_row:
  "\<not> str_in ''136 Charge'' scenario \<and>
   parse_document scenario =
     [\<lparr>Case_Number = ''ABC123'', Police_Dept = ''TEST CITY PD'', Date_of_Crash = ''01/02/23'',
       Name = ''JOHN SMITH'', NotAtFault = ''Yes'', CommercialVehicleFlag = ''No'',
       FatalFlag = ''No''\<rparr>]"
proof -
  have "\<not> str_in ''136 Charge'' scenario"
    by (simp add: scenario_def str_in_def)
  moreover have "parse_occupants scenario \<noteq> []"
    by (simp add: scenario_occupants)
  from parse_document_rows [OF this]
  have "parse_document scenario =
     [\<lparr>Case_Number = ''ABC123'', Police_Dept = ''TEST CITY PD'', Date_of_Crash = ''01/02/23'',
       Name = ''JOHN SMITH'', NotAtFault = ''Yes'', CommercialVehicleFlag = ''No'',
       FatalFlag = ''No''\<rparr>]"
    by (simp add: scenario_case scenario_dept scenario_date scenario_occupants scenario_hint
        scenario_commercial scenario_fatal or_empty_def yes_no_def upper_def)
  ultimately show ?thesis by simp
qed

section \<open>Names carry no number token\<close>

lemma number_items: "items NUMBER_RE = [WordB, Rep is_digit 2 None, WordB]"
  by (simp add: NUMBER_RE_def items_def)

lemma number_fits_iff:
  "fits (items NUMBER_RE) (last_char None pre) segs post \<longleftrightarrow>
     (\<exists>ds. segs = [[], ds, []] \<and> token_at pre ds post)"
proof
  assume "fits (items NUMBER_RE) (last_char None pre) segs post"
  then obtain s1 where 1: "segs = [] # s1"
    and b1: "boundary (last_char None pre) (concat s1 @ post)"
    and f1: "fits [Rep is_digit 2 None, WordB] (last_char None pre) s1 post"
    unfolding number_items fits_WordB by blast
  from f1 obtain ds s2 where 2: "s1 = ds # s2" and d: "list_all is_digit ds" "2 \<le> length ds"
    and f2: "fits [WordB] (last_char (last_char None pre) ds) s2 post"
    unfolding fits_Rep by auto
  from f2 obtain s3 where 3: "s2 = [] # s3"
    and b2: "boundary (last_char (last_char None pre) ds) (concat s3 @ post)"
    and f3: "fits [] (last_char (last_char None pre) ds) s3 post"
    unfolding fits_WordB by blast
  from f3 have 4: "s3 = []" by simp
  from d obtain c t where ds: "ds = c # t" by (cases ds) auto
  with d have "is_word c" by (simp add: digit_is_word)
  with b1 2 ds have "\<not> word_before (last_char None pre)"
    by (simp add: boundary_def word_at_def)
  then have p: "pre = [] \<or> \<not> is_word (last pre)"
    by (auto simp: word_before_def last_char_def split: if_splits)
  from d ds have "is_word (last ds)"
    by (auto simp: list_all_iff digit_is_word)
  with b2 ds 4 have "\<not> word_at post"
    by (simp add: boundary_def word_before_def last_char_def)
  then have q: "post = [] \<or> \<not> is_word (hd post)"
    by (cases post) (auto simp: word_at_def)
  from 1 2 3 4 p q d show "\<exists>ds. segs = [[], ds, []] \<and> token_at pre ds post"
    by (simp add: token_at_def)
next
  assume "\<exists>ds. segs = [[], ds, []] \<and> token_at pre ds post"
  then obtain ds where segs: "segs = [[], ds, []]" and t: "token_at pre ds post"
    by blast
  from t have d: "list_all is_digit ds" "2 \<le> length ds"
    and p: "pre = [] \<or> \<not> is_word (last pre)" and q: "post = [] \<or> \<not> is_word (hd post)"
    by (simp_all add: token_at_def)
  from d obtain c u where ds: "ds = c # u" by (cases ds) auto
  with d have c: "is_word c" by (simp add: digit_is_word)
  from d ds have l: "is_word (last ds)"
    by (auto simp: list_all_iff digit_is_word)
  from p have nb: "\<not> word_before (last_char None pre)"
    by (auto simp: word_before_def last_char_def)
  from q have na: "\<not> word_at post"
    by (cases post) (auto simp: word_at_def)
  have "boundary (last_char None pre) (ds @ post)"
    using nb c ds by (simp add: boundary_def word_at_def)
  moreover have "boundary (last_char (last_char None pre) ds) post"
    using na l ds by (simp add: boundary_def word_before_def last_char_def)
  ultimately show "fits (items NUMBER_RE) (last_char None pre) segs post"
    using segs d by (simp add: number_items)
qed

lemma number_match_iff:
  "match_items (items NUMBER_RE) (last_char None pre) suf \<noteq> None \<longleftrightarrow>
     (\<exists>ds post. suf = ds @ post \<and> token_at pre ds post)"
proof
  assume "match_items (items NUMBER_RE) (last_char None pre) suf \<noteq> None"
  then obtain segs where "match_items (items NUMBER_RE) (last_char None pre) suf = Some segs"
    by blast
  from match_items_sound [OF this] obtain rest where s: "suf = concat segs @ rest"
    and f: "fits (items NUMBER_RE) (last_char None pre) segs rest"
    by blast
  from f obtain ds where "segs = [[], ds, []]" "token_at pre ds rest"
    unfolding number_fits_iff by blast
  with s have "suf = ds @ rest \<and> token_at pre ds rest" by simp
  then show "\<exists>ds post. suf = ds @ post \<and> token_at pre ds post" by blast
next
  assume "\<exists>ds post. suf = ds @ post \<and> token_at pre ds post"
  then obtain ds post where s: "suf = ds @ post" and t: "token_at pre ds post" by blast
  then have "fits (items NUMBER_RE) (last_char None pre) [[], ds, []] post"
    unfolding number_fits_iff by blast
  from match_items_complete [OF this] s
  show "match_items (items NUMBER_RE) (last_char None pre) suf \<noteq> None" by simp
qed

lemma number_search_None_iff: "re_search NUMBER_RE s = None \<longleftrightarrow> \<not> number_token s"
proof -
  have "re_search NUMBER_RE s \<noteq> None \<longleftrightarrow> number_token s"
  proof
    assume "re_search NUMBER_RE s \<noteq> None"
    then obtain pre segs rest where s: "s = pre @ concat segs @ rest"
      and f: "fits (items NUMBER_RE) (last_char None pre) segs rest"
      unfolding re_search_found_iff by blast
    from f obtain ds where "segs = [[], ds, []]" "token_at pre ds rest"
      unfolding number_fits_iff by blast
    with s have "s = pre @ ds @ rest \<and> token_at pre ds rest" by simp
    then show "number_token s" unfolding number_token_def by blast
  next
    assume "number_token s"
    then obtain pre ds post where s: "s = pre @ ds @ post" and t: "token_at pre ds post"
      unfolding number_token_def by blast
    then have "fits (items NUMBER_RE) (last_char None pre) [[], ds, []] post"
      unfolding number_fits_iff by blast
    moreover from s have "s = pre @ concat [[], ds, []] @ post" by simp
    ultimately show "re_search NUMBER_RE s \<noteq> None"
      unfolding re_search_found_iff by blast
  qed
  then show ?thesis by blast
qed

lemma name_only_keeps: "\<not> number_token clean \<Longrightarrow> name_only_of clean = clean"
  by (simp add: name_only_of_def number_search_None_iff [symmetric])

lemma name_only_no_number: "\<not> number_token (name_only_of clean)"
proof (cases "re_search NUMBER_RE clean")
  case None
  then show ?thesis
    by (simp add: name_only_of_def number_search_None_iff [symmetric])
next
  case (Some m)
  define k where "k = m_start m"
  define pre where "pre = take k clean"
  define suf where "suf = drop k clean"
  from re_search_SomeD [OF Some] have kl: "k \<le> length clean"
    and mt: "match_items (items NUMBER_RE) (last_char None pre) suf \<noteq> None"
    and mn: "\<forall>j < k. match_items (items NUMBER_RE) (last_char None (take j clean))
                      (drop j clean) = None"
    by (simp_all add: k_def pre_def suf_def)
  have clean: "clean = pre @ suf" by (simp add: pre_def suf_def)
  from kl have lp: "length pre = k" by (simp add: pre_def)
  from mt obtain ds0 post0 where "token_at pre ds0 post0"
    unfolding number_match_iff by blast
  then have A: "pre = [] \<or> \<not> is_word (last pre)" by (simp add: token_at_def)
  have name: "name_only_of clean = strip pre"
    using Some by (simp add: name_only_of_def slice_prefix k_def pre_def)
  show ?thesis
  proof
    assume "number_token (name_only_of clean)"
    then obtain a ds b where sp: "strip pre = a @ ds @ b" and t: "token_at a ds b"
      unfolding name number_token_def by blast
    from strip_by_decomp [of pre is_space] obtain w1 w2 where
      dec: "pre = w1 @ strip pre @ w2" and w1: "list_all is_space w1"
      and w2: "list_all is_space w2"
      unfolding strip_def by blast
    from t have d: "2 \<le> length ds" "list_all is_digit ds"
      and ta: "a = [] \<or> \<not> is_word (last a)" and tb: "b = [] \<or> \<not> is_word (hd b)"
      by (simp_all add: token_at_def)
    from d obtain c u where ds: "ds = c # u" by (cases ds) auto
    from d ds have lds: "is_word (last ds)"
      by (auto simp: list_all_iff digit_is_word)
    let ?pre = "w1 @ a" and ?post = "b @ w2 @ suf"
    from dec sp have pre: "pre = ?pre @ ds @ b @ w2" by simp
    with clean have c2: "clean = ?pre @ ds @ ?post" by simp
    from pre have "length pre = length ?pre + length ds + length (b @ w2)"
      by (simp only: length_append add.assoc)
    with ds lp have less: "length ?pre < k" by simp
    have p1: "?pre = [] \<or> \<not> is_word (last ?pre)"
    proof (cases a)
      case Nil
      show ?thesis
      proof (cases "w1 = []")
        case True
        with Nil show ?thesis by simp
      next
        case False
        then have "last w1 \<in> set w1" by simp
        with w1 have "is_space (last w1)" by (simp add: list_all_iff)
        with Nil False show ?thesis by (simp add: space_not_word)
      qed
    next
      case (Cons x xs)
      with ta show ?thesis by simp
    qed
    have p2: "?post = [] \<or> \<not> is_word (hd ?post)"
    proof (cases b)
      case (Cons x xs)
      with tb show ?thesis by simp
    next
      case Nil
      show ?thesis
      proof (cases w2)
        case (Cons y ys)
        with w2 have "is_space y" by simp
        with Nil Cons show ?thesis by (simp add: space_not_word)
      next
        case w2Nil: Nil
        with Nil pre ds have "pre \<noteq> []" "last pre = last ds" by simp_all
        with A lds show ?thesis by simp
      qed
    qed
    from d p1 p2 have "token_at ?pre ds ?post" by (simp add: token_at_def)
    then have "match_items (items NUMBER_RE) (last_char None ?pre) (ds @ ?post) \<noteq> None"
      unfolding number_match_iff by blast
    moreover from c2 have "take (length ?pre) clean = ?pre" "drop (length ?pre) clean = ds @ ?post"
      by simp_all
    ultimately show False using mn [rule_format, OF less] by simp
  qed
qed

lemma name_only_cut:
  assumes clean: "clean = pre @ ds @ post" and t: "token_at pre ds post"
    and first: "\<forall>pre' ds' post'. clean = pre' @ ds' @ post' \<and> token_at pre' ds' post'
                  \<longrightarrow> length pre \<le> length pre'"
  shows "name_only_of clean = strip pre"
proof -
  from clean t have "number_token clean" unfolding number_token_def by blast
  then obtain m where m: "re_search NUMBER_RE clean = Some m"
    using number_search_None_iff [of clean] by (cases "re_search NUMBER_RE clean") auto
  define k where "k = m_start m"
  from re_search_SomeD [OF m] have kl: "k \<le> length clean"
    and mt: "match_items (items NUMBER_RE) (last_char None (take k clean)) (drop k clean) \<noteq> None"
    and mn: "\<forall>j < k. match_items (items NUMBER_RE) (last_char None (take j clean))
                      (drop j clean) = None"
    by (simp_all add: k_def)
  from mt obtain ds0 post0 where d0: "drop k clean = ds0 @ post0"
    and t0: "token_at (take k clean) ds0 post0"
    unfolding number_match_iff by blast
  from d0 have "clean = take k clean @ ds0 @ post0"
    using append_take_drop_id [of k clean] by simp
  with t0 first [rule_format, of "take k clean" ds0 post0]
  have "length pre \<le> length (take k clean)" by simp
  with kl have 1: "length pre \<le> k" by simp
  from t have "match_items (items NUMBER_RE) (last_char None pre) (ds @ post) \<noteq> None"
    unfolding number_match_iff by blast
  moreover from clean have "take (length pre) clean = pre" "drop (length pre) clean = ds @ post"
    by simp_all
  ultimately have "\<not> length pre < k" using mn [rule_format, of "length pre"] by auto
  with 1 have "k = length pre" by simp
  with clean have "take k clean = pre" by simp
  with m show ?thesis by (simp add: name_only_of_def slice_prefix k_def)
qed

lemma scan_line_no_number:
  "list_all (\<lambda>occ. \<not> number_token (name occ)) rs \<Longrightarrow>
   list_all (\<lambda>occ. \<not> number_token (name occ)) (scan_line rs l)"
  by (simp add: scan_line_def Let_def name_only_no_number)

lemma foldl_scan_line_no_number:
  "list_all (\<lambda>occ. \<not> number_token (name occ)) rs \<Longrightarrow>
   list_all (\<lambda>occ. \<not> number_token (name occ)) (foldl scan_line rs ls)"
  by (induction ls arbitrary: rs) (simp_all add: scan_line_no_number)

lemma scan_results_no_number:
  "list_all (\<lambda>occ. \<not> number_token (name occ)) (scan_results text)"
  by (simp add: scan_results_def Let_def foldl_scan_line_no_number)

text \<open>
  C10. No name in the occupant list of a text has a number token, that is, a run of two or
  more digits with no word character directly before or behind it. The cut that ensures it:
  a cleaned line without a number token is taken whole, and a cleaned line with one is cut to
  the text before its first number token, white space stripped.
\<close>

theorem names_without_numbers:
  "(\<forall>occ \<in> set (parse_occupants text). \<not> number_token (name occ)) \<and>
   (\<not> number_token clean \<longrightarrow> name_only_of clean = clean) \<and>
   (clean = pre @ ds @ post \<and> token_at pre ds post \<and>
      (\<forall>pre' ds' post'. clean = pre' @ ds' @ post' \<and> token_at pre' ds' post'
         \<longrightarrow> length pre \<le> length pre')
    \<longrightarrow> name_only_of clean = strip pre)"
proof (intro conjI)
  show "\<forall>occ \<in> set (parse_occupants text). \<not> number_token (name occ)"
    using set_parse_occupants [of "text"] scan_results_no_number [of "text"]
    by (auto simp: list_all_iff)
  show "\<not> number_token clean \<longrightarrow> name_only_of clean = clean"
    by (simp add: name_only_keeps)
  show "clean = pre @ ds @ post \<and> token_at pre ds post \<and>
      (\<forall>pre' ds' post'. clean = pre' @ ds' @ post' \<and> token_at pre' ds' post'
         \<longrightarrow> length pre \<le> length pre')
    \<longrightarrow> name_only_of clean = strip pre"
    using name_only_cut [of clean pre ds post] by blast
qed

text \<open>
  On the sample report the name that was followed by an address; a cleaned line whose first
  number token is \<^verbatim>\<open>12\<close>; and on the report in mixed case the name that keeps its digits,
  which stand directly behind an ordinal indicator (186), a word character.
\<close>

theorem names_without_numbers_witness:
  "\<lparr>name = ''JANE DOE''\<rparr> \<in> set (parse_occupants sample) \<and> \<not> number_token ''JANE DOE'' \<and>
   name_only_of ''JANE DOE'' = ''JANE DOE'' \<and>
   token_at ''AL '' ''12'' '' X'' \<and> name_only_of ''AL 12 X'' = ''AL'' \<and>
   \<lparr>name = ''Al Roe N'' @ [CHR 0xBA] @ ''12 Main''\<rparr> \<in> set (parse_occupants sample_mixed) \<and>
   \<not> number_token (''Al Roe N'' @ [CHR 0xBA] @ ''12 Main'')"
proof -
  define clean where "clean = ''AL 12 X''"
  have m: "\<lparr>name = ''JANE DOE''\<rparr> \<in> set (parse_occupants sample)"
    by (simp add: sample_occupants)
  from names_without_numbers [of sample, THEN conjunct1, rule_format, OF m]
  have n: "\<not> number_token ''JANE DOE''" by simp
  from names_without_numbers [of sample "''JANE DOE''", THEN conjunct2, THEN conjunct1] n
  have k: "name_only_of ''JANE DOE'' = ''JANE DOE''" by simp
  have t: "token_at ''AL '' ''12'' '' X''"
    by (simp add: token_at_def class_defs)
  have c: "clean = ''AL '' @ ''12'' @ '' X''"
    by (simp add: clean_def)
  have ev: "re_search NUMBER_RE clean = Some \<lparr>m_start = 3, m_end = 5, group1 = []\<rparr>"
    unfolding clean_def by (simp add: run cong: first_some_cong_weak)
  from re_search_SomeD [OF ev]
  have mn: "\<forall>k < 3. match_items (items NUMBER_RE) (last_char None (take k clean)) (drop k clean)
                    = None"
    by simp
  have first: "\<forall>pre' ds' post'. clean = pre' @ ds' @ post' \<and> token_at pre' ds' post'
                 \<longrightarrow> length ''AL '' \<le> length pre'"
  proof (intro allI impI)
    fix pre' ds' post'
    assume h: "clean = pre' @ ds' @ post' \<and> token_at pre' ds' post'"
    then have "match_items (items NUMBER_RE) (last_char None pre') (ds' @ post') \<noteq> None"
      unfolding number_match_iff by blast
    moreover from h have "take (length pre') clean = pre'"
      "drop (length pre') clean = ds' @ post'"
      by simp_all
    ultimately have "\<not> length pre' < 3"
      using mn [rule_format, of "length pre'"] by auto
    then show "length ''AL '' \<le> length pre'" by simp
  qed
  from names_without_numbers [of sample clean "''AL ''" "''12''" "'' X''",
      THEN conjunct2, THEN conjunct2] c t first
  have "name_only_of clean = strip ''AL ''" by blast
  then have "name_only_of ''AL 12 X'' = ''AL''"
    by (simp add: clean_def strip_def strip_by_def class_defs)
  moreover have x: "\<lparr>name = ''Al Roe N'' @ [CHR 0xBA] @ ''12 Main''\<rparr>
      \<in> set (parse_occupants sample_mixed)"
    by (simp add: sample_mixed_occupants)
  moreover from names_without_numbers [of sample_mixed, THEN conjunct1, rule_format, OF x]
  have "\<not> number_token (''Al Roe N'' @ [CHR 0xBA] @ ''12 Main'')" by simp
  ultimately show ?thesis using m n k t by simp
qed

end
